theory Spec2Isabelle
  imports Main "HOL-Library.Sublist" "HOL-Library.Multiset"
begin

section \<open>JavaScript values and builtins used by the parsers and the downloader\<close>

text \<open>
  A JavaScript string is modelled as a \<^typ>\<open>string\<close>: a list of characters with codes
  below 256.  A JavaScript number is an integer or \<open>NaN\<close>: every number the modelled
  code computes with comes from \<open>parseInt\<close>, from a count or from a sum of such values.
  Integers stand for themselves (the rounding of values beyond \<open>2^53\<close> and the infinities
  are outside the model); \<open>NaN\<close> is kept, since \<open>parseInt\<close> returns it on text without
  digits and the code computes on with it.
\<close>

datatype jsnum = NaN | Num int

fun js_add :: "jsnum \<Rightarrow> jsnum \<Rightarrow> jsnum" where
  "js_add (Num a) (Num b) = Num (a + b)"
| "js_add _ _ = NaN"

fun js_sub :: "jsnum \<Rightarrow> jsnum \<Rightarrow> jsnum" where
  "js_sub (Num a) (Num b) = Num (a - b)"
| "js_sub _ _ = NaN"

text \<open>The comparisons \<open>a >= b\<close> and \<open>a <= b\<close>: false as soon as one side is \<open>NaN\<close>.\<close>

fun js_ge :: "jsnum \<Rightarrow> jsnum \<Rightarrow> bool" where
  "js_ge (Num a) (Num b) = (b \<le> a)"
| "js_ge _ _ = False"

definition js_le :: "jsnum \<Rightarrow> jsnum \<Rightarrow> bool" where
  "js_le a b = js_ge b a"

text \<open>\<open>x || 0\<close> on a number that may be \<open>undefined\<close>: \<open>undefined\<close>, \<open>NaN\<close> and \<open>0\<close> are falsy.\<close>

fun num_or_zero :: "jsnum option \<Rightarrow> jsnum" where
  "num_or_zero (Some (Num n)) = Num n"
| "num_or_zero _ = Num 0"

text \<open>\<open>x || d\<close> on a string that may be \<open>undefined\<close> (or \<open>null\<close>): the empty string is
  falsy as well.\<close>

definition or_default :: "string option \<Rightarrow> string \<Rightarrow> string" where
  "or_default x d = (case x of None \<Rightarrow> d | Some v \<Rightarrow> if v = [] then d else v)"

text \<open>\<open>x || undefined\<close>, and the test \<open>x ? \<dots> : undefined\<close> on an attribute.\<close>

definition nonempty :: "string option \<Rightarrow> string option" where
  "nonempty x = (case x of None \<Rightarrow> None | Some v \<Rightarrow> if v = [] then None else Some v)"

subsection \<open>Strings\<close>

definition startsWith :: "string \<Rightarrow> string \<Rightarrow> bool" where
  "startsWith s p = prefix p s"

definition includesStr :: "string \<Rightarrow> string \<Rightarrow> bool" where
  "includesStr s p = sublist p s"

text \<open>\<open>s.split(c)\<close> for a one-character separator.\<close>

fun split_on :: "char \<Rightarrow> string \<Rightarrow> string list" where
  "split_on c [] = [[]]"
| "split_on c (x # xs) =
     (if x = c then [] # split_on c xs
      else (case split_on c xs of
              [] \<Rightarrow> [[x]]
            | l # ls \<Rightarrow> (x # l) # ls))"

text \<open>White space and line terminators as \<open>trim\<close> and \<open>parseInt\<close> skip them, among the
  characters below 256: TAB, LF, VT, FF, CR, space and the no-break space.\<close>

definition js_space :: "char \<Rightarrow> bool" where
  "js_space c \<longleftrightarrow> c \<in> {CHR 0x09, CHR 0x0A, CHR 0x0B, CHR 0x0C, CHR 0x0D, CHR 0x20, CHR 0xA0}"

definition trim :: "string \<Rightarrow> string" where
  "trim s = rev (dropWhile js_space (rev (dropWhile js_space s)))"

text \<open>\<open>s.replace(p, r)\<close> for a string pattern \<open>p\<close> and a replacement without \<open>$\<close>: the
  first occurrence only.\<close>

fun replace_first :: "string \<Rightarrow> string \<Rightarrow> string \<Rightarrow> string" where
  "replace_first p r [] = (if p = [] then r else [])"
| "replace_first p r (c # cs) =
     (if prefix p (c # cs) then r @ drop (length p) (c # cs)
      else c # replace_first p r cs)"

subsection \<open>Numbers and text\<close>

definition is_digit :: "char \<Rightarrow> bool" where
  "is_digit c \<longleftrightarrow> c \<in> set ''0123456789''"

definition digit_val :: "char \<Rightarrow> nat" where
  "digit_val c = of_char c - 48"

definition decimal :: "string \<Rightarrow> nat" where
  "decimal ds = foldl (\<lambda>a c. 10 * a + digit_val c) 0 ds"

definition digit_char :: "nat \<Rightarrow> char" where
  "digit_char d = ''0123456789'' ! d"

function digits_of :: "nat \<Rightarrow> string" where
  "digits_of n = (if n < 10 then [digit_char n] else digits_of (n div 10) @ [digit_char (n mod 10)])"
  by pat_completeness auto
termination
  by (relation "measure id") auto

declare digits_of.simps [simp del]

text \<open>\<open>String(x)\<close> and \<open>x.toString()\<close> on a number.\<close>

fun js_string_of :: "jsnum \<Rightarrow> string" where
  "js_string_of NaN = ''NaN''"
| "js_string_of (Num i) = (if i < 0 then CHR ''-'' # digits_of (nat (- i)) else digits_of (nat i))"

text \<open>\<open>s.padStart(n, '0')\<close>.\<close>

definition padStart0 :: "nat \<Rightarrow> string \<Rightarrow> string" where
  "padStart0 n s = replicate (n - length s) CHR ''0'' @ s"

text \<open>\<open>parseInt(s, 10)\<close>: leading white space, an optional sign, then the longest run of
  decimal digits; \<open>NaN\<close> when there is no digit.\<close>

definition parseInt10 :: "string \<Rightarrow> jsnum" where
  "parseInt10 s =
     (let s1 = dropWhile js_space s;
          neg = (s1 \<noteq> [] \<and> hd s1 = CHR ''-'');
          s2 = (if s1 \<noteq> [] \<and> (hd s1 = CHR ''-'' \<or> hd s1 = CHR ''+'') then tl s1 else s1);
          ds = takeWhile is_digit s2
      in if ds = [] then NaN
         else Num (if neg then - int (decimal ds) else int (decimal ds)))"

text \<open>\<open>Number(s)\<close> on the texts of a \<open>RESOLUTION\<close> attribute: the empty text is 0, a run of
  decimal digits is its value.  Other numeric literals (fractions, exponents, hexadecimal)
  are outside the model and read as \<open>NaN\<close>; only the choice of a variant by height
  depends on this function.\<close>

definition js_Number :: "string \<Rightarrow> jsnum" where
  "js_Number s =
     (let t = trim s
      in if t = [] then Num 0
         else if list_all is_digit t then Num (int (decimal t))
         else NaN)"

subsection \<open>Sorting\<close>

text \<open>
  \<open>Array.prototype.sort(comparefn)\<close> is a builtin.  ECMAScript fixes its result for a
  consistent comparator: the stable sorted permutation, which the insertion sort below
  computes (an element moves past the elements it compares greater than; a \<open>NaN\<close> from the
  comparator counts as \<open>+0\<close>).  For an inconsistent comparator the order is left to the
  implementation; the model then shows the outcome of this insertion sort.
\<close>

fun js_positive :: "jsnum \<Rightarrow> bool" where
  "js_positive (Num k) = (0 < k)"
| "js_positive NaN = False"

fun insort_by :: "('a \<Rightarrow> 'a \<Rightarrow> jsnum) \<Rightarrow> 'a \<Rightarrow> 'a list \<Rightarrow> 'a list" where
  "insort_by cmp x [] = [x]"
| "insort_by cmp x (y # ys) =
     (if js_positive (cmp x y) then y # insort_by cmp x ys else x # y # ys)"

definition js_sort :: "('a \<Rightarrow> 'a \<Rightarrow> jsnum) \<Rightarrow> 'a list \<Rightarrow> 'a list" where
  "js_sort cmp xs = foldr (insort_by cmp) xs []"

subsection \<open>URLs\<close>

text \<open>
  What the platform provides: \<open>url_href u b\<close> is \<open>new URL(u, b).href\<close>, with \<open>None\<close> when the
  constructor throws.  It is a parameter of everything that resolves a URL.
\<close>

type_synonym url_api = "string \<Rightarrow> string \<Rightarrow> string option"

definition resolveUrl :: "url_api \<Rightarrow> string \<Rightarrow> string \<Rightarrow> string" where
  "resolveUrl url_href url baseUrl =
     (if startsWith url ''http://'' \<or> startsWith url ''https://'' then url
      else (case url_href url baseUrl of Some h \<Rightarrow> h | None \<Rightarrow> url))"

section \<open>Native-messaging host: the decoder of \<open>native-host.ts\<close>\<close>

text \<open>
  The host keeps a byte buffer and a running flag.  A byte of a Node \<open>Buffer\<close> is a
  \<^typ>\<open>char\<close> (an 8-bit value), so that frame bodies can be written as string literals.
\<close>

type_synonym byte = char

record host =
  running :: bool
  buffer :: "byte list"

text \<open>What one complete frame leads to: \<open>this.options.onMessage(message)\<close>, or the
  \<open>console.error\<close> of the \<open>catch\<close> branch.  The decoder has no other output: it holds no
  reference to the downloader or to its error callback.\<close>

datatype 'm host_out = Delivered 'm | ParseFailure

text \<open>\<open>Buffer.readUInt32LE(0)\<close>; it raises a RangeError on fewer than four bytes.\<close>

fun readUInt32LE :: "byte list \<Rightarrow> nat option" where
  "readUInt32LE (b0 # b1 # b2 # b3 # _) =
     Some (of_char b0 + 256 * of_char b1 + 65536 * of_char b2 + 16777216 * of_char b3)"
| "readUInt32LE _ = None"

text \<open>\<open>Buffer.writeUInt32LE(n, 0)\<close> on a fresh four-byte buffer, for \<open>n < 2^32\<close>.\<close>

definition writeUInt32LE :: "nat \<Rightarrow> byte list" where
  "writeUInt32LE n =
     [char_of n, char_of (n div 256), char_of (n div 65536), char_of (n div 16777216)]"

text \<open>The bytes \<open>sendMessage\<close> writes for a serialised body: the length prefix, then the
  body.\<close>

definition frame :: "byte list \<Rightarrow> byte list" where
  "frame body = writeUInt32LE (length body) @ body"

text \<open>
  The \<open>while\<close> loop of \<open>handleData\<close>.  \<open>parse\<close> stands for
  \<open>JSON.parse(messageBuffer.toString('utf8'))\<close>, with \<open>None\<close> when it throws.  The result
  is the buffer left over and what happened to each complete frame, in order.
\<close>

function drain :: "(byte list \<Rightarrow> 'm option) \<Rightarrow> byte list \<Rightarrow> byte list \<times> 'm host_out list" where
  "drain parse buf =
     (if 4 \<le> length buf then
        (case readUInt32LE buf of
           None \<Rightarrow> (buf, [])
         | Some messageLength \<Rightarrow>
             if length buf < 4 + messageLength then (buf, [])
             else
               (let messageBuffer = take messageLength (drop 4 buf);
                    r = drain parse (drop (4 + messageLength) buf)
                in (fst r,
                    (case parse messageBuffer of
                       Some message \<Rightarrow> Delivered message
                     | None \<Rightarrow> ParseFailure) # snd r)))
      else (buf, []))"
  by pat_completeness auto
termination
  by (relation "measure (\<lambda>(parse, buf). length buf)") auto

declare drain.simps [simp del]

definition handleData :: "(byte list \<Rightarrow> 'm option) \<Rightarrow> host \<Rightarrow> byte list \<Rightarrow> host \<times> 'm host_out list" where
  "handleData parse h data =
     (let r = drain parse (buffer h @ data) in (h\<lparr>buffer := fst r\<rparr>, snd r))"

text \<open>The \<open>'data'\<close> events of stdin, one chunk after the other.\<close>

fun feed :: "(byte list \<Rightarrow> 'm option) \<Rightarrow> host \<Rightarrow> byte list list \<Rightarrow> host \<times> 'm host_out list" where
  "feed parse h [] = (h, [])"
| "feed parse h (d # ds) =
     (let r1 = handleData parse h d; r2 = feed parse (fst r1) ds
      in (fst r2, snd r1 @ snd r2))"

text \<open>The outcome of the \<open>try\<close> block for one frame body.\<close>

definition classify :: "(byte list \<Rightarrow> 'm option) \<Rightarrow> byte list \<Rightarrow> 'm host_out" where
  "classify parse body = (case parse body of Some m \<Rightarrow> Delivered m | None \<Rightarrow> ParseFailure)"

subsection \<open>A JSON reader for the concrete scenarios\<close>

text \<open>
  \<open>JSON.parse\<close> is a builtin of the platform, so every property of the decoder is proved
  for an arbitrary \<open>parse\<close>.  The concrete scenarios need one parser to run: the reader
  below covers a fragment of JSON (\<open>null\<close>, \<open>true\<close>, \<open>false\<close>, unsigned integers, strings
  without escapes, and objects of such values, with JSON's whitespace).  It is applied only
  to texts of that fragment and to texts that are not JSON at all; on those it agrees
  with \<open>JSON.parse\<close>.  The bodies of the scenarios are ASCII, where the UTF-8 decoding of
  \<open>toString('utf8')\<close> is the identity.
\<close>

datatype json = JNull | JBool bool | JNum nat | JStr string | JObj "(string \<times> json) list"

definition is_ws :: "char \<Rightarrow> bool" where
  "is_ws c \<longleftrightarrow> c = CHR '' '' \<or> c = CHR 0x09 \<or> c = CHR 0x0A \<or> c = CHR 0x0D"

definition skip_ws :: "string \<Rightarrow> string" where
  "skip_ws = dropWhile is_ws"

fun json_string_body :: "string \<Rightarrow> (string \<times> string) option" where
  "json_string_body [] = None"
| "json_string_body (c # cs) =
     (if c = CHR 0x22 then Some ([], cs)
      else if c = CHR 0x5C \<or> (of_char c :: nat) < 32 then None
      else (case json_string_body cs of
              None \<Rightarrow> None
            | Some (s, r) \<Rightarrow> Some (c # s, r)))"

definition json_number :: "string \<Rightarrow> (json \<times> string) option" where
  "json_number s =
     (let ds = takeWhile is_digit s; r = dropWhile is_digit s
      in if ds = [] \<or> (1 < length ds \<and> hd ds = CHR ''0'') then None
         else if r \<noteq> [] \<and> hd r \<in> set ''.eE'' then None
         else Some (JNum (decimal ds), r))"

definition json_scalar :: "string \<Rightarrow> (json \<times> string) option" where
  "json_scalar s =
     (if prefix ''null'' s then Some (JNull, drop 4 s)
      else if prefix ''true'' s then Some (JBool True, drop 4 s)
      else if prefix ''false'' s then Some (JBool False, drop 5 s)
      else (case s of
              [] \<Rightarrow> None
            | c # r \<Rightarrow>
                if c = CHR 0x22 then
                  (case json_string_body r of
                     None \<Rightarrow> None
                   | Some (x, r') \<Rightarrow> Some (JStr x, r'))
                else json_number s))"

lemma json_string_body_length:
  "json_string_body s = Some (x, r) \<Longrightarrow> length r < length s"
  by (induction s arbitrary: x r) (auto split: if_splits option.splits)

lemma json_number_length: "json_number s = Some (v, r) \<Longrightarrow> length r \<le> length s"
  by (auto simp: json_number_def Let_def length_dropWhile_le split: if_splits)

lemma json_scalar_length: "json_scalar s = Some (v, r) \<Longrightarrow> length r \<le> length s"
  by (auto simp: json_scalar_def split: if_splits list.splits option.splits
           dest!: json_string_body_length json_number_length)

lemma skip_ws_length: "length (skip_ws s) \<le> length s"
  by (simp add: skip_ws_def length_dropWhile_le)

function json_members :: "string \<Rightarrow> ((string \<times> json) list \<times> string) option" where
  "json_members s =
     (case skip_ws s of
        [] \<Rightarrow> None
      | q # r1 \<Rightarrow>
          if q \<noteq> CHR 0x22 then None
          else
            (case json_string_body r1 of
               None \<Rightarrow> None
             | Some (k, r2) \<Rightarrow>
                 (case skip_ws r2 of
                    [] \<Rightarrow> None
                  | c # r3 \<Rightarrow>
                      if c \<noteq> CHR '':'' then None
                      else
                        (case json_scalar (skip_ws r3) of
                           None \<Rightarrow> None
                         | Some (v, r4) \<Rightarrow>
                             (case skip_ws r4 of
                                [] \<Rightarrow> None
                              | d # r5 \<Rightarrow>
                                  if d = CHR '','' then
                                    (case json_members r5 of
                                       None \<Rightarrow> None
                                     | Some (ms, r6) \<Rightarrow> Some ((k, v) # ms, r6))
                                  else if d = CHR ''}'' then Some ([(k, v)], r5)
                                  else None)))))"
  by pat_completeness auto
termination
proof (relation "measure length", goal_cases)
  case 1
  show ?case by simp
next
  case (2 s q r1 kr k r2 c r3 vr v r4 d r5)
  have "length r5 < length (skip_ws r4)" using 2 by simp
  also have "\<dots> \<le> length r4" by (rule skip_ws_length)
  also have "\<dots> \<le> length (skip_ws r3)" using 2 json_scalar_length by metis
  also have "\<dots> \<le> length r3" by (rule skip_ws_length)
  also have "\<dots> < length (skip_ws r2)" using 2 by simp
  also have "\<dots> \<le> length r2" by (rule skip_ws_length)
  also have "\<dots> < length r1" using 2 json_string_body_length by metis
  also have "\<dots> < length (skip_ws s)" using 2 by simp
  also have "\<dots> \<le> length s" by (rule skip_ws_length)
  finally show ?case by simp
qed

declare json_members.simps [simp del]

definition json_parse :: "string \<Rightarrow> json option" where
  "json_parse s =
     (case skip_ws s of
        [] \<Rightarrow> None
      | c # r \<Rightarrow>
          if c = CHR ''{'' then
            (case skip_ws r of
               [] \<Rightarrow> None
             | d # r' \<Rightarrow>
                 if d = CHR ''}'' then (if skip_ws r' = [] then Some (JObj []) else None)
                 else (case json_members r of
                         None \<Rightarrow> None
                       | Some (ms, r'') \<Rightarrow> if skip_ws r'' = [] then Some (JObj ms) else None))
          else (case json_scalar (c # r) of
                  None \<Rightarrow> None
                | Some (v, r') \<Rightarrow> if skip_ws r' = [] then Some v else None))"

subsection \<open>Concrete frames\<close>

text \<open>The bodies of the scenarios: the text \<open>PING0\<close>, a well-formed PING message, and the
  same message padded with blanks to 1 MiB + 1 bytes (blanks after a JSON value are
  allowed).  \<open>idle_host\<close> is the host after \<open>start()\<close>.\<close>

definition ping_text :: string where
  \<open>ping_text = ''{"type":"PING","timestamp":1}''\<close>

definition ping_message :: json where
  "ping_message = JObj [(''type'', JStr ''PING''), (''timestamp'', JNum 1)]"

definition oversized_ping :: string where
  "oversized_ping = ping_text @ replicate 1048548 CHR '' ''"

definition idle_host :: host where
  "idle_host = \<lparr>running = True, buffer = []\<rparr>"

definition scenario6_stream :: "byte list" where
  "scenario6_stream = frame ''PING0'' @ frame ping_text"

section \<open>The HLS parser (\<open>parsers/hls.ts\<close>)\<close>

record HLSResolution =
  res_width :: jsnum
  res_height :: "jsnum option"

text \<open>\<open>frameRate\<close> holds the text of the \<open>FRAME-RATE\<close> attribute (the source stores its
  \<open>parseFloat\<close>, a floating-point value that nothing modelled here reads).\<close>

record HLSVariant =
  v_url :: string
  bandwidth :: jsnum
  resolution :: "HLSResolution option"
  codecs :: "string option"
  frameRate :: "string option"
  audio :: "string option"

record HLSAudioGroup =
  groupId :: string
  ag_name :: string
  language :: string
  ag_uri :: "string option"
  ag_default :: bool
  autoSelect :: bool

record HLSKey =
  key_method :: string
  key_uri :: "string option"
  iv :: "string option"
  keyFormat :: "string option"

text \<open>The segment durations (\<open>parseFloat\<close> of the \<open>#EXTINF\<close> value) and their sum
  \<open>totalDuration\<close> are floating-point values and are left out; nothing below reads them.\<close>

record HLSMediaSegment =
  seg_uri :: string
  seg_key :: "HLSKey option"

record HLSMasterPlaylist =
  variants :: "HLSVariant list"
  audioGroups :: "string \<rightharpoonup> HLSAudioGroup list"
  m_isDRM :: bool

record HLSMediaPlaylist =
  targetDuration :: jsnum
  segments :: "HLSMediaSegment list"
  isDRM :: bool
  encryption :: "HLSKey option"

datatype HLSPlaylist = Master HLSMasterPlaylist | Media HLSMediaPlaylist

datatype StreamProtection = ProtNone | ProtDrm | ProtUnknown

subsection \<open>\<open>parseAttributes\<close>\<close>

text \<open>
  The regular expression \<open>/([A-Z-]+)=(?:"([^"]+)"|([^,]+))/g\<close>.  \<open>attr_match s\<close> is the
  match that starts at the head of \<open>s\<close>: the key, the value (\<open>match[2] || match[3]\<close>) and
  the text after the match.  The key is the longest run of \<open>[A-Z-]\<close> (a shorter one is
  not followed by \<open>=\<close>); the quoted alternative needs a non-empty text up to a closing
  quote, and otherwise the value is the longest non-empty run without a comma.
\<close>

definition is_key_char :: "char \<Rightarrow> bool" where
  "is_key_char c \<longleftrightarrow> c \<in> set ''ABCDEFGHIJKLMNOPQRSTUVWXYZ-''"

definition unquoted_value :: "string \<Rightarrow> string \<Rightarrow> (string \<times> string \<times> string) option" where
  "unquoted_value k v =
     (let x = takeWhile (\<lambda>c. c \<noteq> CHR '','') v
      in if x = [] then None else Some (k, x, dropWhile (\<lambda>c. c \<noteq> CHR '','') v))"

definition attr_match :: "string \<Rightarrow> (string \<times> string \<times> string) option" where
  "attr_match s =
     (let k = takeWhile is_key_char s; r = dropWhile is_key_char s
      in if k = [] then None
         else (case r of
                 [] \<Rightarrow> None
               | e # v \<Rightarrow>
                   if e \<noteq> CHR ''='' then None
                   else (case v of
                           [] \<Rightarrow> None
                         | q # w \<Rightarrow>
                             if q = CHR 0x22
                                \<and> takeWhile (\<lambda>c. c \<noteq> CHR 0x22) w \<noteq> []
                                \<and> dropWhile (\<lambda>c. c \<noteq> CHR 0x22) w \<noteq> []
                             then Some (k, takeWhile (\<lambda>c. c \<noteq> CHR 0x22) w,
                                        tl (dropWhile (\<lambda>c. c \<noteq> CHR 0x22) w))
                             else unquoted_value k v)))"

lemma attr_match_shorter: "attr_match s = Some (k, x, r) \<Longrightarrow> length r < length s"
proof -
  assume a: "attr_match s = Some (k, x, r)"
  have d: "\<And>P (xs :: string). length (dropWhile P xs) \<le> length xs"
    by (rule length_dropWhile_le)
  have d1: "length (dropWhile is_key_char s) \<le> length s" by (rule d)
  have d2: "\<And>w. length (dropWhile (\<lambda>c. c \<noteq> CHR 0x22) w) - 1 \<le> length w"
    using d [of "\<lambda>c. c \<noteq> CHR 0x22"] by (meson diff_le_self le_trans)
  have d3: "\<And>v. length (dropWhile (\<lambda>c. c \<noteq> CHR '','') v) \<le> length v" by (rule d)
  obtain e v where r: "dropWhile is_key_char s = e # v"
    using a by (auto simp: attr_match_def Let_def split: list.splits if_splits)
  obtain q w where v: "v = q # w"
    using a r by (auto simp: attr_match_def Let_def split: list.splits if_splits)
  have "length r \<le> length v"
    using a r v d2 [of w] d3 [of v]
    by (auto simp: attr_match_def unquoted_value_def Let_def split: if_splits)
  then show ?thesis using d1 r by simp
qed

text \<open>The \<open>while ((match = regex.exec(str)) !== null)\<close> loop: where no match starts, the
  search moves on by one character; after a match it continues behind it.\<close>

function parseAttributes_loop :: "string \<Rightarrow> (string \<rightharpoonup> string) \<Rightarrow> (string \<rightharpoonup> string)" where
  "parseAttributes_loop s attrs =
     (if s = [] then attrs
      else (case attr_match s of
              Some (k, x, r) \<Rightarrow> parseAttributes_loop r (attrs(k \<mapsto> x))
            | None \<Rightarrow> parseAttributes_loop (tl s) attrs))"
  by pat_completeness auto
termination
  by (relation "measure (\<lambda>(s, attrs). length s)") (auto dest: attr_match_shorter)

declare parseAttributes_loop.simps [simp del]

definition parseAttributes :: "string \<Rightarrow> (string \<rightharpoonup> string)" where
  "parseAttributes str = parseAttributes_loop str Map.empty"

subsection \<open>Master playlists\<close>

definition parse_resolution :: "string \<Rightarrow> HLSResolution" where
  "parse_resolution r =
     (case map js_Number (split_on CHR ''x'' r) of
        [] \<Rightarrow> \<lparr>res_width = NaN, res_height = None\<rparr>
      | [w] \<Rightarrow> \<lparr>res_width = w, res_height = None\<rparr>
      | w # h # _ \<Rightarrow> \<lparr>res_width = w, res_height = Some h\<rparr>)"

definition make_variant :: "url_api \<Rightarrow> string \<Rightarrow> (string \<rightharpoonup> string) \<Rightarrow> string \<Rightarrow> HLSVariant" where
  "make_variant U baseUrl attrs nextLine =
     \<lparr>v_url = resolveUrl U nextLine baseUrl,
      bandwidth = parseInt10 (or_default (attrs ''BANDWIDTH'') ''0''),
      resolution = (case nonempty (attrs ''RESOLUTION'') of
                      None \<Rightarrow> None
                    | Some r \<Rightarrow> Some (parse_resolution r)),
      codecs = attrs ''CODECS'',
      frameRate = nonempty (attrs ''FRAME-RATE''),
      audio = attrs ''AUDIO''\<rparr>"

definition make_audio_group :: "url_api \<Rightarrow> string \<Rightarrow> (string \<rightharpoonup> string) \<Rightarrow> HLSAudioGroup" where
  "make_audio_group U baseUrl attrs =
     \<lparr>groupId = or_default (attrs ''GROUP-ID'') ''default'',
      ag_name = or_default (attrs ''NAME'') ''Audio'',
      language = or_default (attrs ''LANGUAGE'') ''und'',
      ag_uri = (case nonempty (attrs ''URI'') of
                  None \<Rightarrow> None
                | Some u \<Rightarrow> Some (resolveUrl U u baseUrl)),
      ag_default = (attrs ''DEFAULT'' = Some ''YES''),
      autoSelect = (attrs ''AUTOSELECT'' = Some ''YES'')\<rparr>"

text \<open>The two \<open>// Check for DRM\<close> tests of the master loop, on one line.\<close>

definition master_drm_line :: "string \<Rightarrow> bool" where
  "master_drm_line line \<longleftrightarrow>
     (includesStr line ''EXT-X-KEY'' \<and> includesStr line ''METHOD=SAMPLE-AES'')
     \<or> includesStr line ''com.widevine'' \<or> includesStr line ''com.apple.fps''"

text \<open>
  The \<open>for\<close> loop of \<open>parseMasterPlaylist\<close>, on the lines from index \<open>i\<close> on:
  \<open>line\<close> is \<open>lines[i]\<close> and \<open>rest\<close> the lines after it.  \<open>master_takes_next\<close> is the
  test \<open>nextLine && !nextLine.startsWith('#')\<close> under a \<open>#EXT-X-STREAM-INF:\<close> line, and
  \<open>master_body\<close> one pass through the loop body.  After a pass that took the next line
  as a variant URI, \<open>i++\<close> steps over that line, so the loop never looks at it.
\<close>

definition master_takes_next :: "string \<Rightarrow> string list \<Rightarrow> bool" where
  "master_takes_next line rest \<longleftrightarrow>
     startsWith line ''#EXT-X-STREAM-INF:''
     \<and> (case rest of [] \<Rightarrow> False | nextLine # _ \<Rightarrow> nextLine \<noteq> [] \<and> \<not> startsWith nextLine ''#'')"

definition master_body ::
  "url_api \<Rightarrow> string \<Rightarrow> string \<Rightarrow> string list \<Rightarrow> HLSMasterPlaylist \<Rightarrow> HLSMasterPlaylist" where
  "master_body U baseUrl line rest acc =
     (let acc1 =
            (if startsWith line ''#EXT-X-MEDIA:'' then
               (let attrs = parseAttributes (drop 13 line)
                in if attrs ''TYPE'' = Some ''AUDIO'' then
                     (let group = make_audio_group U baseUrl attrs;
                          old = (case audioGroups acc (groupId group) of None \<Rightarrow> [] | Some gs \<Rightarrow> gs)
                      in acc\<lparr>audioGroups := (audioGroups acc)(groupId group \<mapsto> old @ [group])\<rparr>)
                   else acc)
             else acc);
          acc2 =
            (if master_takes_next line rest then
               acc1\<lparr>variants := variants acc1
                        @ [make_variant U baseUrl (parseAttributes (drop 18 line)) (hd rest)]\<rparr>
             else acc1)
      in if master_drm_line line then acc2\<lparr>m_isDRM := True\<rparr> else acc2)"

function master_loop ::
  "url_api \<Rightarrow> string \<Rightarrow> string list \<Rightarrow> HLSMasterPlaylist \<Rightarrow> HLSMasterPlaylist" where
  "master_loop U baseUrl [] acc = acc"
| "master_loop U baseUrl (line # rest) acc =
     master_loop U baseUrl (if master_takes_next line rest then tl rest else rest)
       (master_body U baseUrl line rest acc)"
  by pat_completeness auto
termination
  by (relation "measure (\<lambda>(U, b, ls, acc). length ls)") auto

definition variant_compare :: "HLSVariant \<Rightarrow> HLSVariant \<Rightarrow> jsnum" where
  "variant_compare a b = js_sub (bandwidth b) (bandwidth a)"

definition parseMasterPlaylist :: "url_api \<Rightarrow> string list \<Rightarrow> string \<Rightarrow> HLSMasterPlaylist" where
  "parseMasterPlaylist U lines baseUrl =
     (let r = master_loop U baseUrl lines \<lparr>variants = [], audioGroups = Map.empty, m_isDRM = False\<rparr>
      in r\<lparr>variants := js_sort variant_compare (variants r)\<rparr>)"

subsection \<open>Media playlists\<close>

definition make_key :: "url_api \<Rightarrow> string \<Rightarrow> (string \<rightharpoonup> string) \<Rightarrow> HLSKey" where
  "make_key U baseUrl attrs =
     \<lparr>key_method = or_default (attrs ''METHOD'') ''NONE'',
      key_uri = (case nonempty (attrs ''URI'') of
                   None \<Rightarrow> None
                 | Some u \<Rightarrow> Some (resolveUrl U u baseUrl)),
      iv = attrs ''IV'',
      keyFormat = attrs ''KEYFORMAT''\<rparr>"

text \<open>The two \<open>// Check for DRM encryption\<close> tests on the key just read.\<close>

definition key_is_drm :: "HLSKey \<Rightarrow> bool" where
  "key_is_drm k \<longleftrightarrow>
     (key_method k \<noteq> ''NONE'' \<and> key_method k \<noteq> ''AES-128'')
     \<or> (case keyFormat k of
           None \<Rightarrow> False
         | Some f \<Rightarrow> includesStr f ''widevine'' \<or> includesStr f ''fairplay'')"

fun media_loop ::
  "url_api \<Rightarrow> string \<Rightarrow> string list \<Rightarrow> HLSMediaPlaylist \<Rightarrow> HLSMediaPlaylist" where
  "media_loop U baseUrl [] acc = acc"
| "media_loop U baseUrl (line # rest) acc =
     (let acc1 = (if startsWith line ''#EXT-X-TARGETDURATION:''
                  then acc\<lparr>targetDuration := parseInt10 (drop 22 line)\<rparr> else acc);
          acc2 = (if startsWith line ''#EXT-X-KEY:'' then
                    (let currentKey = make_key U baseUrl (parseAttributes (drop 11 line))
                     in acc1\<lparr>encryption := Some currentKey,
                             isDRM := (isDRM acc1 \<or> key_is_drm currentKey)\<rparr>)
                  else acc1);
          acc3 = (if \<not> startsWith line ''#'' \<and> 0 < length line then
                    acc2\<lparr>segments := segments acc2
                            @ [\<lparr>seg_uri = resolveUrl U line baseUrl, seg_key = encryption acc2\<rparr>]\<rparr>
                  else acc2)
      in media_loop U baseUrl rest acc3)"

definition parseMediaPlaylist :: "url_api \<Rightarrow> string list \<Rightarrow> string \<Rightarrow> HLSMediaPlaylist" where
  "parseMediaPlaylist U lines baseUrl =
     media_loop U baseUrl lines
       \<lparr>targetDuration = Num 0, segments = [], isDRM = False, encryption = None\<rparr>"

subsection \<open>\<open>parseHLSManifest\<close> and \<open>getHLSProtection\<close>\<close>

definition manifest_lines :: "string \<Rightarrow> string list" where
  "manifest_lines content = filter (\<lambda>l. l \<noteq> []) (map trim (split_on CHR 0x0A content))"

definition isMaster :: "string list \<Rightarrow> bool" where
  "isMaster lines = list_ex (\<lambda>line. startsWith line ''#EXT-X-STREAM-INF'') lines"

definition parseHLSManifest :: "url_api \<Rightarrow> string \<Rightarrow> string \<Rightarrow> string + HLSPlaylist" where
  "parseHLSManifest U content baseUrl =
     (let lines = manifest_lines content
      in if \<not> (case lines of [] \<Rightarrow> False | l # _ \<Rightarrow> startsWith l ''#EXTM3U'')
         then Inl ''Invalid HLS manifest: missing #EXTM3U header''
         else if isMaster lines then Inr (Master (parseMasterPlaylist U lines baseUrl))
         else Inr (Media (parseMediaPlaylist U lines baseUrl)))"

fun playlist_isDRM :: "HLSPlaylist \<Rightarrow> bool" where
  "playlist_isDRM (Master p) = m_isDRM p"
| "playlist_isDRM (Media p) = isDRM p"

definition getHLSProtection :: "HLSPlaylist \<Rightarrow> StreamProtection" where
  "getHLSProtection playlist =
     (if playlist_isDRM playlist then ProtDrm
      else (case playlist of
              Media p \<Rightarrow>
                (case encryption p of
                   Some k \<Rightarrow> if key_method k = ''AES-128'' then ProtNone else ProtNone
                 | None \<Rightarrow> ProtNone)
            | Master _ \<Rightarrow> ProtNone))"

subsection \<open>What the claims about the HLS parser speak of\<close>

text \<open>The lines the master loop examines: all but the URI lines it steps over.\<close>

fun examined_lines :: "string list \<Rightarrow> string list" where
  "examined_lines [] = []"
| "examined_lines [l] = [l]"
| "examined_lines (l # n # rest) =
     l # (if startsWith l ''#EXT-X-STREAM-INF:'' \<and> n \<noteq> [] \<and> \<not> startsWith n ''#''
          then examined_lines rest
          else examined_lines (n # rest))"

text \<open>
  Protection detection in the words of the specification, for a whole manifest: some
  \<open>#EXT-X-KEY:\<close> tag has a \<open>METHOD\<close> outside \<open>NONE\<close> and \<open>AES-128\<close> (a tag without
  \<open>METHOD\<close> counts as \<open>NONE\<close>), or a \<open>KEYFORMAT\<close> containing \<open>widevine\<close> or \<open>fairplay\<close>, or
  the manifest is a master manifest and \<open>com.widevine\<close> or \<open>com.apple.fps\<close> occurs anywhere
  in it.
\<close>

definition key_tags :: "string \<Rightarrow> (string \<rightharpoonup> string) list" where
  "key_tags content =
     map (\<lambda>l. parseAttributes (drop 11 l))
       (filter (\<lambda>l. startsWith l ''#EXT-X-KEY:'') (manifest_lines content))"

definition method_is_drm :: "(string \<rightharpoonup> string) \<Rightarrow> bool" where
  "method_is_drm attrs \<longleftrightarrow>
     or_default (attrs ''METHOD'') ''NONE'' \<noteq> ''NONE''
     \<and> or_default (attrs ''METHOD'') ''NONE'' \<noteq> ''AES-128''"

definition keyformat_is_drm :: "(string \<rightharpoonup> string) \<Rightarrow> bool" where
  "keyformat_is_drm attrs \<longleftrightarrow>
     (case attrs ''KEYFORMAT'' of
        None \<Rightarrow> False
      | Some f \<Rightarrow> includesStr f ''widevine'' \<or> includesStr f ''fairplay'')"

definition spec_is_drm :: "string \<Rightarrow> bool" where
  "spec_is_drm content \<longleftrightarrow>
     list_ex method_is_drm (key_tags content)
     \<or> list_ex keyformat_is_drm (key_tags content)
     \<or> (isMaster (manifest_lines content)
         \<and> (includesStr content ''com.widevine'' \<or> includesStr content ''com.apple.fps''))"

text \<open>Manifests of the scenarios, written line by line.\<close>

definition text_of_lines :: "string list \<Rightarrow> string" where
  "text_of_lines ls = concat (map (\<lambda>l. l @ [CHR 0x0A]) ls)"

definition no_url_api :: url_api where
  "no_url_api u b = None"

definition aes128_media_playlist :: string where
  \<open>aes128_media_playlist = text_of_lines
     [''#EXTM3U'',
      ''#EXT-X-TARGETDURATION:10'',
      ''#EXT-X-KEY:METHOD=AES-128,URI="k.bin"'',
      ''#EXTINF:10,'',
      ''https://cdn.example/seg0.ts'']\<close>

definition sample_aes_master :: string where
  \<open>sample_aes_master = text_of_lines
     [''#EXTM3U'',
      ''#EXT-X-KEY:METHOD=SAMPLE-AES,KEYFORMAT="com.apple.streamingkeydelivery"'',
      ''#EXT-X-STREAM-INF:BANDWIDTH=5000000,RESOLUTION=1920x1080'',
      ''https://cdn.example/hi.m3u8'']\<close>

definition aes256_master :: string where
  \<open>aes256_master = text_of_lines
     [''#EXTM3U'',
      ''#EXT-X-KEY:METHOD=AES-256,URI="k.bin"'',
      ''#EXT-X-STREAM-INF:BANDWIDTH=1000000'',
      ''https://cdn.example/lo.m3u8'']\<close>

definition malformed_bandwidth_master :: string where
  \<open>malformed_bandwidth_master = text_of_lines
     [''#EXTM3U'',
      ''#EXT-X-STREAM-INF:BANDWIDTH=5000000'',
      ''https://cdn.example/a.m3u8'',
      ''#EXT-X-STREAM-INF:BANDWIDTH=high'',
      ''https://cdn.example/b.m3u8'',
      ''#EXT-X-STREAM-INF:BANDWIDTH=7000000'',
      ''https://cdn.example/c.m3u8'']\<close>

section \<open>The DASH parser (\<open>parsers/dash.ts\<close>)\<close>

subsection \<open>Documents\<close>

text \<open>
  The parser works on the document \<open>DOMParser\<close> returns.  A document is its root element;
  an element has a local name (what a CSS type selector compares), attributes and child
  nodes.  \<open>DOMParser\<close> itself is a builtin and a parameter of \<open>parseDASHManifest\<close>.
\<close>

datatype xml = Element string "(string \<times> string) list" "xml list" | TextNode string

type_synonym dom_api = "string \<Rightarrow> xml"

fun is_tag :: "string \<Rightarrow> xml \<Rightarrow> bool" where
  "is_tag t (Element n _ _) = (n = t)"
| "is_tag t (TextNode _) = False"

fun child_nodes :: "xml \<Rightarrow> xml list" where
  "child_nodes (Element _ _ cs) = cs"
| "child_nodes (TextNode _) = []"

text \<open>All nodes below a node, in document order.\<close>

fun descendants :: "xml \<Rightarrow> xml list" where
  "descendants (Element n a cs) = concat (map (\<lambda>c. c # descendants c) cs)"
| "descendants (TextNode s) = []"

fun getAttribute :: "xml \<Rightarrow> string \<Rightarrow> string option" where
  "getAttribute (Element _ attrs _) name = map_of attrs name"
| "getAttribute (TextNode _) name = None"

fun textContent :: "xml \<Rightarrow> string" where
  "textContent (Element n a cs) = concat (map textContent cs)"
| "textContent (TextNode s) = s"

text \<open>\<open>e.querySelectorAll(t)\<close> and \<open>e.querySelector(t)\<close> for a type selector \<open>t\<close>;
  \<open>e.querySelector(':scope > t')\<close>; and, on the document, the same with the root element
  included.\<close>

definition querySelectorAll :: "xml \<Rightarrow> string \<Rightarrow> xml list" where
  "querySelectorAll e t = filter (is_tag t) (descendants e)"

definition querySelector :: "xml \<Rightarrow> string \<Rightarrow> xml option" where
  "querySelector e t = (case querySelectorAll e t of [] \<Rightarrow> None | x # _ \<Rightarrow> Some x)"

definition querySelector_child :: "xml \<Rightarrow> string \<Rightarrow> xml option" where
  "querySelector_child e t = (case filter (is_tag t) (child_nodes e) of [] \<Rightarrow> None | x # _ \<Rightarrow> Some x)"

definition doc_querySelectorAll :: "xml \<Rightarrow> string \<Rightarrow> xml list" where
  "doc_querySelectorAll root t = filter (is_tag t) (root # descendants root)"

definition doc_querySelector :: "xml \<Rightarrow> string \<Rightarrow> xml option" where
  "doc_querySelector root t = (case doc_querySelectorAll root t of [] \<Rightarrow> None | x # _ \<Rightarrow> Some x)"

subsection \<open>The manifest model\<close>

record DASHSegmentTimeline =
  s_start :: "jsnum option"
  s_duration :: jsnum
  s_repeat :: "jsnum option"

record DASHSegmentTemplate =
  media :: string
  t_initialization :: "string option"
  startNumber :: jsnum
  timescale :: jsnum
  t_duration :: "jsnum option"
  timeline :: "DASHSegmentTimeline list option"

record DASHSegmentList =
  l_initialization :: "string option"
  l_segments :: "string list"

record DASHRepresentation =
  rep_id :: string
  rep_bandwidth :: jsnum
  rep_width :: "jsnum option"
  rep_height :: "jsnum option"
  rep_frameRate :: "string option"
  rep_codecs :: "string option"
  rep_mimeType :: "string option"
  rep_baseUrl :: "string option"
  segmentTemplate :: "DASHSegmentTemplate option"
  segmentList :: "DASHSegmentList option"

record DASHContentProtection =
  schemeIdUri :: string
  cp_value :: "string option"
  pssh :: "string option"

datatype ContentType = Video | Audio | TextTrack

record DASHAdaptationSet =
  as_id :: string
  as_mimeType :: string
  contentType :: ContentType
  lang :: "string option"
  representations :: "DASHRepresentation list"
  contentProtection :: "DASHContentProtection list"

text \<open>The two durations of the manifest (\<open>parseDuration\<close>, with \<open>parseFloat\<close> seconds) are
  floating-point values and are left out; nothing below reads them.\<close>

record DASHManifest =
  mpd_type :: string
  adaptationSets :: "DASHAdaptationSet list"
  d_isDRM :: bool
  d_baseUrl :: "string option"

subsection \<open>Parsing\<close>

text \<open>\<open>e.getAttribute(a) ? parseInt(e.getAttribute(a)!, 10) : undefined\<close>.\<close>

definition optional_int :: "xml \<Rightarrow> string \<Rightarrow> jsnum option" where
  "optional_int e a = (case nonempty (getAttribute e a) of None \<Rightarrow> None | Some v \<Rightarrow> Some (parseInt10 v))"

definition parseTimelineEntry :: "xml \<Rightarrow> DASHSegmentTimeline" where
  "parseTimelineEntry s =
     \<lparr>s_start = optional_int s ''t'',
      s_duration = parseInt10 (or_default (getAttribute s ''d'') ''0''),
      s_repeat = optional_int s ''r''\<rparr>"

definition parseSegmentTemplate :: "xml option \<Rightarrow> DASHSegmentTemplate option" where
  "parseSegmentTemplate element =
     (case element of
        None \<Rightarrow> None
      | Some e \<Rightarrow>
          Some \<lparr>media = or_default (getAttribute e ''media'') '''',
                t_initialization = nonempty (getAttribute e ''initialization''),
                startNumber = parseInt10 (or_default (getAttribute e ''startNumber'') ''1''),
                timescale = parseInt10 (or_default (getAttribute e ''timescale'') ''1''),
                t_duration = optional_int e ''duration'',
                timeline = (case querySelector e ''SegmentTimeline'' of
                              None \<Rightarrow> None
                            | Some tline \<Rightarrow> Some (map parseTimelineEntry (querySelectorAll tline ''S'')))\<rparr>)"

definition parseSegmentList :: "url_api \<Rightarrow> xml \<Rightarrow> string \<Rightarrow> DASHSegmentList" where
  "parseSegmentList U element baseUrl =
     \<lparr>l_initialization = (case querySelector element ''Initialization'' of
                            None \<Rightarrow> None
                          | Some init \<Rightarrow> nonempty (getAttribute init ''sourceURL'')),
      l_segments = map (\<lambda>m. resolveUrl U m baseUrl)
                     (List.map_filter (\<lambda>seg. nonempty (getAttribute seg ''media''))
                        (querySelectorAll element ''SegmentURL''))\<rparr>"

definition parseRepresentation ::
  "url_api \<Rightarrow> xml \<Rightarrow> string \<Rightarrow> DASHSegmentTemplate option \<Rightarrow> DASHRepresentation" where
  "parseRepresentation U element baseUrl parentTemplate =
     \<lparr>rep_id = or_default (getAttribute element ''id'') '''',
      rep_bandwidth = parseInt10 (or_default (getAttribute element ''bandwidth'') ''0''),
      rep_width = optional_int element ''width'',
      rep_height = optional_int element ''height'',
      rep_frameRate = nonempty (getAttribute element ''frameRate''),
      rep_codecs = nonempty (getAttribute element ''codecs''),
      rep_mimeType = nonempty (getAttribute element ''mimeType''),
      rep_baseUrl = (case querySelector element ''BaseURL'' of
                       None \<Rightarrow> None
                     | Some b \<Rightarrow> if textContent b = [] then None
                                else Some (resolveUrl U (textContent b) baseUrl)),
      segmentTemplate = (case parseSegmentTemplate (querySelector_child element ''SegmentTemplate'') of
                           Some t \<Rightarrow> Some t
                         | None \<Rightarrow> parentTemplate),
      segmentList = (case querySelector element ''SegmentList'' of
                       None \<Rightarrow> None
                     | Some l \<Rightarrow> Some (parseSegmentList U l baseUrl))\<rparr>"

text \<open>The selector \<open>'pssh, cenc\\:pssh'\<close> finds the first descendant named \<open>pssh\<close>.\<close>

definition parseContentProtection :: "xml \<Rightarrow> DASHContentProtection" where
  "parseContentProtection cp =
     \<lparr>schemeIdUri = or_default (getAttribute cp ''schemeIdUri'') '''',
      cp_value = nonempty (getAttribute cp ''value''),
      pssh = (case querySelector cp ''pssh'' of
                None \<Rightarrow> None
              | Some p \<Rightarrow> if textContent p = [] then None else Some (textContent p))\<rparr>"

definition representation_descending :: "DASHRepresentation \<Rightarrow> DASHRepresentation \<Rightarrow> jsnum" where
  "representation_descending a b = js_sub (rep_bandwidth b) (rep_bandwidth a)"

definition representation_ascending :: "DASHRepresentation \<Rightarrow> DASHRepresentation \<Rightarrow> jsnum" where
  "representation_ascending a b = js_sub (rep_bandwidth a) (rep_bandwidth b)"

definition parseAdaptationSet :: "url_api \<Rightarrow> xml \<Rightarrow> string \<Rightarrow> DASHAdaptationSet" where
  "parseAdaptationSet U element baseUrl =
     (let mimeType = or_default (getAttribute element ''mimeType'') '''';
          ctype = (if includesStr mimeType ''audio'' \<or> getAttribute element ''contentType'' = Some ''audio''
                   then Audio
                   else if includesStr mimeType ''text'' \<or> getAttribute element ''contentType'' = Some ''text''
                   then TextTrack
                   else Video);
          asSegmentTemplate = parseSegmentTemplate (querySelector_child element ''SegmentTemplate'');
          reps = map (\<lambda>rep. parseRepresentation U rep baseUrl asSegmentTemplate)
                   (querySelectorAll element ''Representation'')
      in \<lparr>as_id = or_default (getAttribute element ''id'') '''',
          as_mimeType = mimeType,
          contentType = ctype,
          lang = nonempty (getAttribute element ''lang''),
          representations = (if ctype = Video then js_sort representation_descending reps
                             else js_sort representation_ascending reps),
          contentProtection = map parseContentProtection (querySelectorAll element ''ContentProtection'')\<rparr>)"

definition parseDASHManifest :: "url_api \<Rightarrow> dom_api \<Rightarrow> string \<Rightarrow> string \<Rightarrow> string + DASHManifest" where
  "parseDASHManifest U D content baseUrl =
     (let doc = D content
      in case doc_querySelector doc ''MPD'' of
           None \<Rightarrow> Inl ''Invalid DASH manifest: missing MPD element''
         | Some mpd \<Rightarrow>
             (let base = (case doc_querySelector doc ''BaseURL'' of
                            None \<Rightarrow> None
                          | Some b \<Rightarrow> if textContent b = [] then None
                                     else Some (resolveUrl U (textContent b) baseUrl));
                  sets = map (\<lambda>as. parseAdaptationSet U as (or_default base baseUrl))
                           (concat (map (\<lambda>period. querySelectorAll period ''AdaptationSet'')
                                      (doc_querySelectorAll doc ''Period'')))
              in Inr \<lparr>mpd_type = or_default (getAttribute mpd ''type'') ''static'',
                      adaptationSets = sets,
                      d_isDRM = list_ex (\<lambda>a. 0 < length (contentProtection a)) sets,
                      d_baseUrl = base\<rparr>))"

definition known_drm_scheme :: "string \<Rightarrow> bool" where
  "known_drm_scheme u \<longleftrightarrow>
     u = ''urn:uuid:edef8ba9-79d6-4ace-a3c8-27dcd51d21ed''
     \<or> u = ''urn:uuid:9a04f079-9840-4286-ab92-e65be0885f95''
     \<or> u = ''urn:uuid:94ce86fb-07ff-4f43-adb8-93d2fa968ca2''"

definition getDASHProtection :: "DASHManifest \<Rightarrow> StreamProtection" where
  "getDASHProtection manifest =
     (if d_isDRM manifest then ProtDrm
      else if list_ex (\<lambda>as. list_ex (\<lambda>cp. known_drm_scheme (schemeIdUri cp)) (contentProtection as))
                (adaptationSets manifest)
      then ProtDrm
      else ProtNone)"

subsection \<open>\<open>generateSegmentUrls\<close>\<close>

text \<open>
  \<open>GetSubstitution\<close> for a replacement text and a pattern without capture groups:
  \<open>$$\<close> is a dollar sign, \<open>$&\<close> the matched text, \<open>$`\<close> the text before the match and
  \<open>$'\<close> the text after it; every other character stands for itself.
\<close>

fun get_substitution :: "string \<Rightarrow> string \<Rightarrow> string \<Rightarrow> string \<Rightarrow> string" where
  "get_substitution matched passed after (c # d # r) =
     (if c = CHR ''$'' \<and> d = CHR ''$'' then CHR ''$'' # get_substitution matched passed after r
      else if c = CHR ''$'' \<and> d = CHR ''&'' then matched @ get_substitution matched passed after r
      else if c = CHR ''$'' \<and> d = CHR 0x60 then passed @ get_substitution matched passed after r
      else if c = CHR ''$'' \<and> d = CHR 0x27 then after @ get_substitution matched passed after r
      else c # get_substitution matched passed after (d # r))"
| "get_substitution matched passed after r = r"

text \<open>\<open>str.replace(new RegExp(pat, 'g'), repl)\<close> for a pattern \<open>pat\<close> that matches one
  fixed, non-empty text: matches are searched from left to right in the original text,
  \<open>passed\<close> being the part already behind.\<close>

function replace_all_from :: "string \<Rightarrow> string \<Rightarrow> string \<Rightarrow> string \<Rightarrow> string" where
  "replace_all_from pat repl passed s =
     (if s = [] \<or> pat = [] then s
      else if prefix pat s then
        get_substitution pat passed (drop (length pat) s) repl
          @ replace_all_from pat repl (passed @ pat) (drop (length pat) s)
      else hd s # replace_all_from pat repl (passed @ [hd s]) (tl s))"
  by pat_completeness auto
termination
  by (relation "measure (\<lambda>(pat, repl, passed, s). length s)") auto

declare replace_all_from.simps [simp del]

definition replace_all :: "string \<Rightarrow> string \<Rightarrow> string \<Rightarrow> string" where
  "replace_all pat repl s = replace_all_from pat repl [] s"

text \<open>
  \<open>str.replace(new RegExp('\\$Key%(\\d+)d\\$', 'g'), (_, width) =>
  String(value).padStart(parseInt(width), '0'))\<close>: a match is \<open>$Key%\<close>, the longest run of
  digits (at least one), then \<open>d$\<close>.  The text a replacement function returns is inserted
  as it is.
\<close>

definition padded_match :: "string \<Rightarrow> string \<Rightarrow> (nat \<times> string) option" where
  "padded_match key s =
     (let p = CHR ''$'' # key @ ''%''
      in if prefix p s then
           (let r = drop (length p) s; w = takeWhile is_digit r; r' = dropWhile is_digit r
            in if w \<noteq> [] \<and> prefix ''d$'' r' then Some (decimal w, drop 2 r') else None)
         else None)"

lemma padded_match_shorter: "padded_match key s = Some (w, r) \<Longrightarrow> length r < length s"
proof -
  assume a: "padded_match key s = Some (w, r)"
  let ?p = "CHR ''$'' # key @ ''%''"
  have "length (dropWhile is_digit (drop (length ?p) s)) \<le> length (drop (length ?p) s)"
    by (rule length_dropWhile_le)
  moreover have "r = drop 2 (dropWhile is_digit (drop (length ?p) s))" and "prefix ?p s"
    using a by (auto simp: padded_match_def Let_def split: if_splits)
  ultimately show ?thesis
    by (auto simp: prefix_def)
qed

function replace_padded :: "string \<Rightarrow> string \<Rightarrow> string \<Rightarrow> string" where
  "replace_padded key val s =
     (if s = [] then []
      else (case padded_match key s of
              Some (w, r) \<Rightarrow> padStart0 w val @ replace_padded key val r
            | None \<Rightarrow> hd s # replace_padded key val (tl s)))"
  by pat_completeness auto
termination
  by (relation "measure (\<lambda>(key, val, s). length s)") (auto dest: padded_match_shorter)

declare replace_padded.simps [simp del]

text \<open>\<open>replaceVars\<close>: the entries of \<open>vars\<close> in order, each with its two replacements.\<close>

fun replaceVars :: "string \<Rightarrow> (string \<times> string) list \<Rightarrow> string" where
  "replaceVars str [] = str"
| "replaceVars str ((key, val) # vars) =
     replaceVars (replace_padded key val (replace_all (CHR ''$'' # key @ ''$'') val str)) vars"

definition segment_vars :: "DASHRepresentation \<Rightarrow> jsnum \<Rightarrow> jsnum \<Rightarrow> (string \<times> string) list" where
  "segment_vars representation number time =
     [(''RepresentationID'', rep_id representation),
      (''Number'', js_string_of number),
      (''Time'', js_string_of time),
      (''Bandwidth'', js_string_of (rep_bandwidth representation))]"

definition segment_url ::
  "url_api \<Rightarrow> DASHRepresentation \<Rightarrow> string \<Rightarrow> DASHSegmentTemplate \<Rightarrow> jsnum \<Rightarrow> jsnum \<Rightarrow> string" where
  "segment_url U representation baseUrl template number time =
     resolveUrl U (replaceVars (media template) (segment_vars representation number time))
       (or_default (rep_baseUrl representation) baseUrl)"

text \<open>The inner loop \<open>for (let i = 0; i < repeat; i++)\<close>, with \<open>k\<close> rounds to go; it
  returns the URLs it pushed and the values \<open>time\<close> and \<open>number\<close> end with.\<close>

fun repeat_loop ::
  "url_api \<Rightarrow> DASHRepresentation \<Rightarrow> string \<Rightarrow> DASHSegmentTemplate \<Rightarrow> jsnum \<Rightarrow> nat \<Rightarrow>
   jsnum \<Rightarrow> jsnum \<Rightarrow> string list \<times> jsnum \<times> jsnum" where
  "repeat_loop U rep baseUrl template d 0 time number = ([], time, number)"
| "repeat_loop U rep baseUrl template d (Suc k) time number =
     (let url = segment_url U rep baseUrl template number time;
          r = repeat_loop U rep baseUrl template d k (js_add time d) (js_add number (Num 1))
      in (url # fst r, snd r))"

text \<open>\<open>(segment.repeat || 0) + 1\<close>, as the number of rounds of the inner loop.\<close>

definition repeat_count :: "DASHSegmentTimeline \<Rightarrow> nat" where
  "repeat_count segment = (case js_add (num_or_zero (s_repeat segment)) (Num 1) of
                             Num r \<Rightarrow> nat r
                           | NaN \<Rightarrow> 0)"

fun timeline_loop ::
  "url_api \<Rightarrow> DASHRepresentation \<Rightarrow> string \<Rightarrow> DASHSegmentTemplate \<Rightarrow>
   DASHSegmentTimeline list \<Rightarrow> jsnum \<Rightarrow> jsnum \<Rightarrow> string list" where
  "timeline_loop U rep baseUrl template [] time number = []"
| "timeline_loop U rep baseUrl template (segment # later) time number =
     (let time1 = (case s_start segment of Some t \<Rightarrow> t | None \<Rightarrow> time);
          r = repeat_loop U rep baseUrl template (s_duration segment) (repeat_count segment)
                time1 number
      in fst r @ timeline_loop U rep baseUrl template later (fst (snd r)) (snd (snd r)))"

definition generateSegmentUrls :: "url_api \<Rightarrow> DASHRepresentation \<Rightarrow> string \<Rightarrow> string list" where
  "generateSegmentUrls U representation baseUrl =
     (case segmentTemplate representation of
        Some template \<Rightarrow>
          (case timeline template of
             Some entries \<Rightarrow> timeline_loop U representation baseUrl template entries (Num 0) (startNumber template)
           | None \<Rightarrow> [])
      | None \<Rightarrow>
          (case segmentList representation of
             Some l \<Rightarrow> l_segments l
           | None \<Rightarrow> []))"

subsection \<open>What the claims about segment URLs speak of\<close>

text \<open>
  The segment plan in the words of the specification.  \<open>advance x d i\<close> is \<open>x\<close> advanced
  \<open>i\<close> times by \<open>d\<close>.  An \<open>S\<close> entry contributes \<open>repeat + 1\<close> segments (\<open>repeat\<close> is 0
  when the entry has none or its \<open>r\<close> is not a number); the time starts at the entry's
  \<open>t\<close> when it has one and at the running time otherwise, and advances by \<open>d\<close> per
  segment; the number runs on from \<open>startNumber\<close>.  \<open>timeline_points\<close> lists the pair
  (number, time) of every segment.
\<close>

definition advance :: "jsnum \<Rightarrow> jsnum \<Rightarrow> nat \<Rightarrow> jsnum" where
  "advance x d i = ((\<lambda>v. js_add v d) ^^ i) x"

definition spec_count :: "DASHSegmentTimeline \<Rightarrow> nat" where
  "spec_count s = (case s_repeat s of
                     Some (Num r) \<Rightarrow> nat (r + 1)
                   | _ \<Rightarrow> 1)"

fun timeline_points :: "jsnum \<Rightarrow> jsnum \<Rightarrow> DASHSegmentTimeline list \<Rightarrow> (jsnum \<times> jsnum) list" where
  "timeline_points time number [] = []"
| "timeline_points time number (s # ss) =
     (let t0 = (case s_start s of Some t \<Rightarrow> t | None \<Rightarrow> time); n = spec_count s
      in map (\<lambda>i. (advance number (Num 1) i, advance t0 (s_duration s) i)) [0..<n]
         @ timeline_points (advance t0 (s_duration s) n) (advance number (Num 1) n) ss)"

text \<open>Scenario 4 of the specification: the template
  \<open>v_$RepresentationID$_$Number%05d$.m4s\<close>, \<open>startNumber\<close> 1, one entry
  \<open><S d="100" r="2"/>\<close>, representation \<open>v1\<close>.\<close>

definition scenario4_template :: DASHSegmentTemplate where
  "scenario4_template =
     \<lparr>media = ''v_$RepresentationID$_$Number%05d$.m4s'', t_initialization = None,
      startNumber = Num 1, timescale = Num 1, t_duration = None,
      timeline = Some [\<lparr>s_start = None, s_duration = Num 100, s_repeat = Some (Num 2)\<rparr>]\<rparr>"

definition scenario4_representation :: DASHRepresentation where
  "scenario4_representation =
     \<lparr>rep_id = ''v1'', rep_bandwidth = Num 800000, rep_width = None, rep_height = None,
      rep_frameRate = None, rep_codecs = None, rep_mimeType = None, rep_baseUrl = None,
      segmentTemplate = Some scenario4_template, segmentList = None\<rparr>"

text \<open>Scenario 4 with a representation whose id is the three characters \<open>r$&\<close>, and
  with a media pattern that takes the id through the width-formatted placeholder.\<close>

definition dollar_id_representation :: DASHRepresentation where
  "dollar_id_representation = scenario4_representation\<lparr>rep_id := ''r$&''\<rparr>"

definition formatted_id_representation :: DASHRepresentation where
  "formatted_id_representation =
     dollar_id_representation
       \<lparr>segmentTemplate :=
          Some (scenario4_template\<lparr>media := ''v_$RepresentationID%01d$_$Number%05d$.m4s''\<rparr>)\<rparr>"

text \<open>A number the code holds exactly: an integer of magnitude up to \<open>2^53\<close>, or \<open>NaN\<close>.
  On such numbers the sums of the model are the sums of the code as long as the results
  are such numbers again.\<close>

fun exact_number :: "jsnum \<Rightarrow> bool" where
  "exact_number NaN = True"
| "exact_number (Num a) = (\<bar>a\<bar> \<le> 2 ^ 53)"

text \<open>A video adaptation set whose second representation has a bandwidth that is not a
  number.\<close>

definition malformed_bandwidth_set :: xml where
  "malformed_bandwidth_set =
     Element ''AdaptationSet'' [(''mimeType'', ''video/mp4'')]
       [Element ''Representation'' [(''id'', ''a''), (''bandwidth'', ''5000000'')] [],
        Element ''Representation'' [(''id'', ''b''), (''bandwidth'', ''high'')] [],
        Element ''Representation'' [(''id'', ''c''), (''bandwidth'', ''7000000'')] []]"

section \<open>The downloader (\<open>main/downloader.ts\<close>)\<close>

subsection \<open>Jobs, events and the state of a \<open>Downloader\<close>\<close>

datatype StreamType = Hls | Dash | Direct | Ytdlp | UnknownType

fun stream_type_text :: "StreamType \<Rightarrow> string" where
  "stream_type_text Hls = ''hls''"
| "stream_type_text Dash = ''dash''"
| "stream_type_text Direct = ''direct''"
| "stream_type_text Ytdlp = ''ytdlp''"
| "stream_type_text UnknownType = ''unknown''"

text \<open>Of a quality, a stream and a job the fields the downloader reads or writes are kept
  (time stamps come from the clock and are left out).\<close>

record VideoQuality =
  q_width :: jsnum
  q_height :: jsnum
  q_label :: string

record DetectedStream =
  s_id :: string
  s_url :: string
  s_type :: StreamType
  protection :: StreamProtection
  pageTitle :: string

datatype DownloadStatus = Pending | Downloading | Merging | Completed | Failed | Cancelled

text \<open>Speed, ETA, the estimate of the total size and the percentage are floating-point
  values computed from the clock; the progress record keeps its integer fields.\<close>

record DownloadProgress =
  downloadedBytes :: nat
  currentSegment :: "nat option"
  totalSegments :: "nat option"

record DownloadJob =
  job_id :: string
  stream :: DetectedStream
  selectedQuality :: VideoQuality
  status :: DownloadStatus
  progress :: DownloadProgress
  outputPath :: "string option"
  job_error :: "string option"

text \<open>The calls of the three callbacks \<open>onProgress\<close>, \<open>onComplete\<close> and \<open>onError\<close>.  A
  progress call carries the job id and the progress record, and no status.  The
  callbacks are taken to return: one that throws would be caught by the \<open>catch\<close> block of
  \<open>executeDownload\<close> like an error of the download, and is outside the model.\<close>

datatype event =
  OnProgress string DownloadProgress
| OnComplete string "string option"
| OnError string string

fun event_job :: "event \<Rightarrow> string" where
  "event_job (OnProgress j _) = j"
| "event_job (OnComplete j _) = j"
| "event_job (OnError j _) = j"

fun terminal :: "event \<Rightarrow> bool" where
  "terminal (OnProgress _ _) = False"
| "terminal (OnComplete _ _) = True"
| "terminal (OnError _ _) = True"

record js_error =
  err_name :: string
  err_message :: string

text \<open>
  The asynchronous functions are modelled as tasks.  A task is suspended at an \<open>await\<close>;
  its program counter says at which one and holds the local variables that are live
  there.  \<open>segments\<close> (their URIs), \<open>tempDir\<close>, \<open>i\<close>, \<open>segmentFiles\<close> and
  \<open>downloadedBytes\<close> are the variables of the segment loops.
\<close>

datatype pc =
  HlsManifest
| HlsPlaylist string
| HlsMkdir "string list" string
| HlsSegment "string list" string nat "string list" nat
| HlsWrite "string list" string nat "string list" nat nat
| HlsMerge string
| HlsConcat string
| HlsCleanup string
| DashManifest
| DashImport DASHManifest "DASHRepresentation option"
| DashMkdir DASHRepresentation "string list" string
| DashInit "string list" string
| DashInitWrite "string list" string
| DashSegment "string list" string nat "string list" nat
| DashWrite "string list" string nat "string list" nat nat
| DashMerge string
| DashCleanup string
| DirectStream string

text \<open>What the environment answers to an awaited call: the promise resolves (with a
  response body, with a buffer of some length, or with nothing) or rejects; a
  \<open>got.stream\<close> also reports \<open>downloadProgress\<close> while it runs.  The promise of a
  \<open>got\<close> call rejects when \<open>got\<close> has given up, after the attempts it makes on its
  own.\<close>

datatype payload = Body string | Bytes nat | Nothing

datatype outcome = Resolved payload | Rejected js_error | StreamProgress nat

record task =
  t_job :: string
  t_aborted :: bool
  t_pc :: pc

text \<open>
  The downloader: its options (\<open>ffmpegAvailable\<close> is \<open>this.options.ffmpeg?.isAvailable()\<close>),
  its four fields, the suspended tasks, and the two logs the claims speak of: the calls
  of the callbacks and the calls of \<open>got\<close> (job id and URL of every call).  \<open>got\<close> is the
  HTTP client; the downloader passes it the URL and the abort signal.  What \<open>got\<close> puts
  on the wire for one call, and how often it repeats a request that failed before its
  promise settles, is decided inside \<open>got\<close> and is not part of this model: \<open>gotCalls\<close>
  counts calls of \<open>got\<close>, not GET requests.  An
  \<open>AbortController\<close> is created for one task and is identified with it: \<open>abortControllers\<close>
  maps a job id to the task whose signal the controller aborts.
\<close>

record downloader =
  downloadPath :: string
  maxConcurrent :: int
  ffmpegAvailable :: bool
  jobs :: "string \<rightharpoonup> DownloadJob"
  activeDownloads :: int
  queue :: "string list"
  abortControllers :: "string \<rightharpoonup> nat"
  tasks :: "nat \<rightharpoonup> task"
  nextTask :: nat
  emitted :: "event list"
  gotCalls :: "(string \<times> string) list"

definition new_downloader :: "string \<Rightarrow> int \<Rightarrow> bool \<Rightarrow> downloader" where
  "new_downloader path maxc ffmpeg =
     \<lparr>downloadPath = path, maxConcurrent = maxc, ffmpegAvailable = ffmpeg,
      jobs = Map.empty, activeDownloads = 0, queue = [], abortControllers = Map.empty,
      tasks = Map.empty, nextTask = 0, emitted = [], gotCalls = []\<rparr>"

subsection \<open>File names\<close>

text \<open>\<open>sanitizeFilename\<close>: the characters \<open><>:"/\\|?*\<close> are removed, every run of white
  space becomes one blank, the result is trimmed and cut to 200 characters.\<close>

text \<open>\<open>collapse_spaces in_run\<close>: \<open>in_run\<close> tells that the character before was white
  space, whose run has got its blank already.\<close>

fun collapse_spaces :: "bool \<Rightarrow> string \<Rightarrow> string" where
  "collapse_spaces in_run [] = []"
| "collapse_spaces in_run (c # cs) =
     (if js_space c then (if in_run then collapse_spaces True cs
                          else CHR '' '' # collapse_spaces True cs)
      else c # collapse_spaces False cs)"

definition sanitizeFilename :: "string \<Rightarrow> string" where
  "sanitizeFilename name =
     take 200 (trim (collapse_spaces False
       (filter (\<lambda>c. c \<notin> {CHR ''<'', CHR ''>'', CHR '':'', CHR 0x22, CHR ''/'', CHR 0x5C,
                          CHR ''|'', CHR ''?'', CHR ''*''}) name)))"

text \<open>\<open>path.join\<close> of a directory and a file name (the normalisation \<open>path.join\<close> applies
  is outside the model).\<close>

definition path_join :: "string \<Rightarrow> string \<Rightarrow> string" where
  "path_join dir name = dir @ ''/'' @ name"

definition output_path :: "downloader \<Rightarrow> DownloadJob \<Rightarrow> string" where
  "output_path d job =
     path_join (downloadPath d)
       (sanitizeFilename (or_default (Some (pageTitle (stream job))) ''video'') @ ''.mp4'')"

definition temp_dir :: "downloader \<Rightarrow> DownloadJob \<Rightarrow> string" where
  "temp_dir d job = path_join (downloadPath d) (''.aigrabber-'' @ job_id job)"

definition segment_path :: "string \<Rightarrow> nat \<Rightarrow> string \<Rightarrow> string" where
  "segment_path tempDir i ext =
     path_join tempDir (''segment-'' @ padStart0 5 (digits_of i) @ ext)"

subsection \<open>The download functions, from one \<open>await\<close> to the next\<close>

text \<open>How a run of a download function from one \<open>await\<close> goes on: to the next \<open>await\<close>,
  to its \<open>return\<close>, or to an exception.\<close>

datatype continuation = Await pc | Return | Throw js_error

record step =
  st_job :: DownloadJob
  st_calls :: "string list"
  st_progress :: "DownloadProgress list"
  st_next :: continuation

definition step_to :: "DownloadJob \<Rightarrow> continuation \<Rightarrow> step" where
  "step_to job k = \<lparr>st_job = job, st_calls = [], st_progress = [], st_next = k\<rparr>"

definition plain_error :: "string \<Rightarrow> js_error" where
  "plain_error msg = \<lparr>err_name = ''Error'', err_message = msg\<rparr>"

text \<open>The \<open>TypeError\<close> of reading a property of \<open>undefined\<close> (the message is V8's).\<close>

definition type_error :: "string \<Rightarrow> js_error" where
  "type_error prop =
     \<lparr>err_name = ''TypeError'',
      err_message = ''Cannot read properties of undefined (reading '' @ [CHR 0x27] @ prop @ [CHR 0x27] @ '')''\<rparr>"

text \<open>\<open>x === q\<close> for a number \<open>x\<close> that may be \<open>undefined\<close>: \<open>NaN\<close> equals nothing.\<close>

fun strict_eq :: "jsnum option \<Rightarrow> jsnum \<Rightarrow> bool" where
  "strict_eq (Some (Num a)) (Num b) = (a = b)"
| "strict_eq _ _ = False"

definition variant_height :: "HLSVariant \<Rightarrow> jsnum option" where
  "variant_height v = (case resolution v of None \<Rightarrow> None | Some r \<Rightarrow> res_height r)"

text \<open>The head of the two segment loops: the test \<open>i < segments.length\<close>, the test of
  \<open>signal.aborted\<close> and the \<open>got\<close> call for segment \<open>i\<close>; after the loop the job is
  \<open>merging\<close> and the merge (or the concatenation, without FFmpeg) is awaited.\<close>

definition hls_loop ::
  "downloader \<Rightarrow> bool \<Rightarrow> DownloadJob \<Rightarrow> string list \<Rightarrow> string \<Rightarrow> nat \<Rightarrow> string list \<Rightarrow> nat \<Rightarrow> step" where
  "hls_loop d aborted job segs tempDir i files bytes =
     (if i < length segs then
        (if aborted then step_to job (Throw (plain_error ''Download cancelled''))
         else (step_to job (Await (HlsSegment segs tempDir i files bytes)))\<lparr>st_calls := [segs ! i]\<rparr>)
      else
        (let job' = job\<lparr>status := Merging\<rparr>
         in if ffmpegAvailable d then step_to job' (Await (HlsMerge (output_path d job)))
            else step_to job' (Await (HlsConcat (replace_first ''.mp4'' ''.ts'' (output_path d job))))))"

definition dash_loop ::
  "downloader \<Rightarrow> bool \<Rightarrow> DownloadJob \<Rightarrow> string list \<Rightarrow> string \<Rightarrow> nat \<Rightarrow> string list \<Rightarrow> nat \<Rightarrow> step" where
  "dash_loop d aborted job urls tempDir i files bytes =
     (if i < length urls then
        (if aborted then step_to job (Throw (plain_error ''Download cancelled''))
         else (step_to job (Await (DashSegment urls tempDir i files bytes)))\<lparr>st_calls := [urls ! i]\<rparr>)
      else step_to (job\<lparr>status := Merging\<rparr>) (Await (DashMerge (output_path d job))))"

text \<open>(\<open>DashMerge\<close> is the \<open>await\<close> of \<open>mergeSegments\<close> or, without FFmpeg, of
  \<open>concatenateFiles\<close>; both write to the same path and are followed by the clean-up.)\<close>

text \<open>\<open>initialization.replace('$RepresentationID$', representation.id)\<close>: the first
  occurrence, with the replacement patterns of \<open>GetSubstitution\<close>.\<close>

fun replace_first_from :: "string \<Rightarrow> string \<Rightarrow> string \<Rightarrow> string \<Rightarrow> string" where
  "replace_first_from pat repl passed [] = []"
| "replace_first_from pat repl passed (c # cs) =
     (if prefix pat (c # cs)
      then get_substitution pat passed (drop (length pat) (c # cs)) repl @ drop (length pat) (c # cs)
      else c # replace_first_from pat repl (passed @ [c]) cs)"

text \<open>
  \<open>download_step\<close> runs the task of \<open>job\<close> from the \<open>await\<close> at \<open>pc\<close>, whose call ended
  with \<open>out\<close>, to the next \<open>await\<close>.  \<open>aborted\<close> is \<open>signal.aborted\<close>.  A rejected promise
  is an exception at the \<open>await\<close>; none of the download functions catches one.  An outcome
  that does not fit the awaited call does not arise; the task then stays where it is.
\<close>

definition download_step ::
  "url_api \<Rightarrow> dom_api \<Rightarrow> downloader \<Rightarrow> bool \<Rightarrow> DownloadJob \<Rightarrow> pc \<Rightarrow> outcome \<Rightarrow> step" where
  "download_step U D d aborted job p out =
     (case out of
        Rejected e \<Rightarrow> step_to job (Throw e)
      | StreamProgress transferred \<Rightarrow>
          (case p of
             DirectStream path \<Rightarrow>
               (let pr = \<lparr>downloadedBytes = transferred, currentSegment = None, totalSegments = None\<rparr>
                in (step_to (job\<lparr>progress := pr\<rparr>) (Await p))\<lparr>st_progress := [pr]\<rparr>)
           | _ \<Rightarrow> step_to job (Await p))
      | Resolved v \<Rightarrow>
          (case p of
             HlsManifest \<Rightarrow>
               (case v of
                  Body b \<Rightarrow>
                    (case parseHLSManifest U b (s_url (stream job)) of
                       Inl msg \<Rightarrow> step_to job (Throw (plain_error msg))
                     | Inr (Media _) \<Rightarrow>
                         (step_to job (Await (HlsPlaylist (s_url (stream job)))))
                           \<lparr>st_calls := [s_url (stream job)]\<rparr>
                     | Inr (Master m) \<Rightarrow>
                         (case find (\<lambda>x. strict_eq (variant_height x) (q_height (selectedQuality job)))
                                 (variants m) of
                            Some x \<Rightarrow> (step_to job (Await (HlsPlaylist (v_url x))))\<lparr>st_calls := [v_url x]\<rparr>
                          | None \<Rightarrow>
                              (case variants m of
                                 [] \<Rightarrow> step_to job (Throw (type_error ''url''))
                               | x # _ \<Rightarrow>
                                   (step_to job (Await (HlsPlaylist (v_url x))))\<lparr>st_calls := [v_url x]\<rparr>)))
                | _ \<Rightarrow> step_to job (Await p))
           | HlsPlaylist variantUrl \<Rightarrow>
               (case v of
                  Body b \<Rightarrow>
                    (case parseHLSManifest U b variantUrl of
                       Inl msg \<Rightarrow> step_to job (Throw (plain_error msg))
                     | Inr (Master _) \<Rightarrow> step_to job (Throw (plain_error ''Expected media playlist''))
                     | Inr (Media pl) \<Rightarrow> step_to job (Await (HlsMkdir (map seg_uri (segments pl)) (temp_dir d job))))
                | _ \<Rightarrow> step_to job (Await p))
           | HlsMkdir segs tempDir \<Rightarrow> hls_loop d aborted job segs tempDir 0 [] 0
           | HlsSegment segs tempDir i files bytes \<Rightarrow>
               (case v of
                  Bytes n \<Rightarrow> step_to job (Await (HlsWrite segs tempDir i files bytes n))
                | _ \<Rightarrow> step_to job (Await p))
           | HlsWrite segs tempDir i files bytes n \<Rightarrow>
               (let pr = \<lparr>downloadedBytes = bytes + n, currentSegment = Some (i + 1),
                          totalSegments = Some (length segs)\<rparr>;
                    s = hls_loop d aborted (job\<lparr>progress := pr\<rparr>) segs tempDir (i + 1)
                          (files @ [segment_path tempDir i ''.ts'']) (bytes + n)
                in s\<lparr>st_progress := [pr]\<rparr>)
           | HlsMerge path \<Rightarrow> step_to job (Await (HlsCleanup path))
           | HlsCleanup path \<Rightarrow> step_to (job\<lparr>outputPath := Some path\<rparr>) Return
           | HlsConcat path \<Rightarrow> step_to (job\<lparr>outputPath := Some path\<rparr>) Return
           | DashManifest \<Rightarrow>
               (case v of
                  Body b \<Rightarrow>
                    (case parseDASHManifest U D b (s_url (stream job)) of
                       Inl msg \<Rightarrow> step_to job (Throw (plain_error msg))
                     | Inr manifest \<Rightarrow>
                         (case find (\<lambda>a. contentType a = Video) (adaptationSets manifest) of
                            None \<Rightarrow> step_to job (Throw (plain_error ''No video stream found''))
                          | Some videoSet \<Rightarrow>
                              step_to job
                                (Await (DashImport manifest
                                   (case find (\<lambda>r. strict_eq (rep_height r) (q_height (selectedQuality job)))
                                           (representations videoSet) of
                                      Some r \<Rightarrow> Some r
                                    | None \<Rightarrow> (case representations videoSet of
                                                 [] \<Rightarrow> None
                                               | r # _ \<Rightarrow> Some r))))))
                | _ \<Rightarrow> step_to job (Await p))
           | DashImport manifest representation \<Rightarrow>
               (case representation of
                  None \<Rightarrow> step_to job (Throw (type_error ''segmentTemplate''))
                | Some r \<Rightarrow>
                    (let segmentUrls = generateSegmentUrls U r
                                         (or_default (d_baseUrl manifest) (s_url (stream job)))
                     in if length segmentUrls = 0
                        then step_to job (Throw (plain_error ''Could not generate segment URLs''))
                        else step_to job (Await (DashMkdir r segmentUrls (temp_dir d job)))))
           | DashMkdir r urls tempDir \<Rightarrow>
               (case (case segmentTemplate r of
                        None \<Rightarrow> None
                      | Some t \<Rightarrow> nonempty (t_initialization t)) of
                  Some init \<Rightarrow>
                    (step_to job (Await (DashInit urls tempDir)))
                      \<lparr>st_calls := [replace_first_from ''$RepresentationID$'' (rep_id r) [] init]\<rparr>
                | None \<Rightarrow> dash_loop d aborted job urls tempDir 0 [] 0)
           | DashInit urls tempDir \<Rightarrow>
               (case v of
                  Bytes n \<Rightarrow> step_to job (Await (DashInitWrite urls tempDir))
                | _ \<Rightarrow> step_to job (Await p))
           | DashInitWrite urls tempDir \<Rightarrow>
               dash_loop d aborted job urls tempDir 0 [path_join tempDir ''init.mp4''] 0
           | DashSegment urls tempDir i files bytes \<Rightarrow>
               (case v of
                  Bytes n \<Rightarrow> step_to job (Await (DashWrite urls tempDir i files bytes n))
                | _ \<Rightarrow> step_to job (Await p))
           | DashWrite urls tempDir i files bytes n \<Rightarrow>
               (let pr = \<lparr>downloadedBytes = bytes + n, currentSegment = Some (i + 1),
                          totalSegments = Some (length urls)\<rparr>;
                    s = dash_loop d aborted (job\<lparr>progress := pr\<rparr>) urls tempDir (i + 1)
                          (files @ [segment_path tempDir i ''.m4s'']) (bytes + n)
                in s\<lparr>st_progress := [pr]\<rparr>)
           | DashMerge path \<Rightarrow> step_to job (Await (DashCleanup path))
           | DashCleanup path \<Rightarrow> step_to (job\<lparr>outputPath := Some path\<rparr>) Return
           | DirectStream path \<Rightarrow> step_to (job\<lparr>outputPath := Some path\<rparr>) Return))"

subsection \<open>\<open>executeDownload\<close>, \<open>processQueue\<close> and the public methods\<close>

text \<open>How the \<open>try\<close> block of \<open>executeDownload\<close> ended.\<close>

datatype ending = Returned | Thrown js_error

text \<open>
  The end of \<open>executeDownload\<close> for the job of task \<open>tid\<close>: after a return the job is
  completed and \<open>onComplete\<close> is called, unless it is cancelled; in the \<open>catch\<close> block it
  is failed and \<open>onError\<close> is called, unless the error is an \<open>AbortError\<close> or the job is
  cancelled; the \<open>finally\<close> block frees the slot and forgets the controller.  (The call
  of \<open>processQueue\<close> that ends the \<open>finally\<close> block follows in \<open>finish\<close>.)
\<close>

definition conclude :: "downloader \<Rightarrow> string \<Rightarrow> nat \<Rightarrow> ending \<Rightarrow> downloader" where
  "conclude d jobId tid e =
     (let d1 =
            (case jobs d jobId of
               None \<Rightarrow> d
             | Some job \<Rightarrow>
                 (case e of
                    Returned \<Rightarrow>
                      if status job \<noteq> Cancelled
                      then d\<lparr>jobs := (jobs d)(jobId \<mapsto> job\<lparr>status := Completed\<rparr>),
                             emitted := emitted d @ [OnComplete jobId (outputPath job)]\<rparr>
                      else d
                  | Thrown err \<Rightarrow>
                      if err_name err \<noteq> ''AbortError'' \<and> status job \<noteq> Cancelled
                      then d\<lparr>jobs := (jobs d)(jobId \<mapsto> job\<lparr>status := Failed,
                                                              job_error := Some (err_message err)\<rparr>),
                             emitted := emitted d @ [OnError jobId (err_message err)]\<rparr>
                      else d))
      in d1\<lparr>activeDownloads := activeDownloads d1 - 1,
            abortControllers := (abortControllers d1)(jobId := None),
            tasks := (tasks d1)(tid := None)\<rparr>)"

text \<open>
  \<open>executeDownload(jobId)\<close> up to its first \<open>await\<close>: the job is looked up, the slot is
  taken, the job is \<open>downloading\<close>, a controller is created, and the download function
  for the stream type makes its first \<open>got\<close> call.  A stream type other than \<open>hls\<close>,
  \<open>dash\<close> and \<open>direct\<close> throws at once; the function then ends without ever being
  suspended, which the second component of the result tells.
\<close>

definition begin_download :: "downloader \<Rightarrow> string \<Rightarrow> downloader \<times> bool" where
  "begin_download d jobId =
     (case jobs d jobId of
        None \<Rightarrow> (d, False)
      | Some job \<Rightarrow>
          if status job = Cancelled then (d, False)
          else
            (let tid = nextTask d;
                 job' = job\<lparr>status := Downloading\<rparr>;
                 d1 = d\<lparr>activeDownloads := activeDownloads d + 1,
                        jobs := (jobs d)(jobId \<mapsto> job'),
                        abortControllers := (abortControllers d)(jobId \<mapsto> tid),
                        nextTask := tid + 1\<rparr>;
                 suspended = (\<lambda>p. (d1\<lparr>tasks := (tasks d1)(tid \<mapsto> \<lparr>t_job = jobId, t_aborted = False, t_pc = p\<rparr>),
                                        gotCalls := gotCalls d1 @ [(jobId, s_url (stream job))]\<rparr>, False))
             in case s_type (stream job) of
                  Hls \<Rightarrow> suspended HlsManifest
                | Dash \<Rightarrow> suspended DashManifest
                | Direct \<Rightarrow> suspended (DirectStream (output_path d job))
                | other \<Rightarrow>
                    (conclude d1 jobId tid
                       (Thrown (plain_error (''Unsupported stream type: '' @ stream_type_text other))),
                     True)))"

lemma queue_conclude [simp]: "queue (conclude d jobId tid e) = queue d"
  by (simp add: conclude_def Let_def split: option.splits ending.splits)

lemma queue_begin_download [simp]: "queue (fst (begin_download d jobId)) = queue d"
  by (simp add: begin_download_def Let_def split: option.splits StreamType.splits)

text \<open>
  \<open>processQueue\<close>: while a slot is free and the queue is not empty, the first id is
  taken from the queue and \<open>executeDownload\<close> is called.  When that call runs into its
  \<open>finally\<close> block before it returns, the \<open>processQueue\<close> it calls there runs while this
  loop is still in its body; it is the same loop on the same state, and when it returns
  no slot is free or the queue is empty, so that this loop ends at its next test.  The
  model therefore runs one loop.
\<close>

function processQueue :: "downloader \<Rightarrow> downloader" where
  "processQueue d =
     (if activeDownloads d < maxConcurrent d \<and> queue d \<noteq> []
      then processQueue (fst (begin_download (d\<lparr>queue := tl (queue d)\<rparr>) (hd (queue d))))
      else d)"
  by pat_completeness auto
termination
  by (relation "measure (\<lambda>d. length (queue d))") auto

declare processQueue.simps [simp del]

text \<open>The \<open>finally\<close> block with its call of \<open>processQueue\<close>, for a task that ends after it
  had been suspended.\<close>

definition finish :: "downloader \<Rightarrow> string \<Rightarrow> nat \<Rightarrow> ending \<Rightarrow> downloader" where
  "finish d jobId tid e = processQueue (conclude d jobId tid e)"

text \<open>\<open>startDownload\<close>; \<open>newId\<close> is what \<open>generateId()\<close> returned.\<close>

definition startDownload ::
  "downloader \<Rightarrow> string \<Rightarrow> DetectedStream \<Rightarrow> VideoQuality \<Rightarrow> downloader" where
  "startDownload d newId strm quality =
     (let job = \<lparr>job_id = newId, stream = strm, selectedQuality = quality, status = Pending,
                 progress = \<lparr>downloadedBytes = 0, currentSegment = None, totalSegments = None\<rparr>,
                 outputPath = None, job_error = None\<rparr>
      in processQueue (d\<lparr>jobs := (jobs d)(newId \<mapsto> job), queue := queue d @ [newId]\<rparr>))"

definition cancelDownload :: "downloader \<Rightarrow> string \<Rightarrow> downloader" where
  "cancelDownload d jobId =
     (let d1 = (case abortControllers d jobId of
                  None \<Rightarrow> d
                | Some tid \<Rightarrow>
                    d\<lparr>tasks := (case tasks d tid of
                                  None \<Rightarrow> tasks d
                                | Some t \<Rightarrow> (tasks d)(tid \<mapsto> t\<lparr>t_aborted := True\<rparr>)),
                      abortControllers := (abortControllers d)(jobId := None)\<rparr>);
          d2 = (case jobs d1 jobId of
                  None \<Rightarrow> d1
                | Some job \<Rightarrow> d1\<lparr>jobs := (jobs d1)(jobId \<mapsto> job\<lparr>status := Cancelled\<rparr>)\<rparr>)
      in d2\<lparr>queue := remove1 jobId (queue d2)\<rparr>)"

definition getDownloads :: "downloader \<Rightarrow> DownloadJob set" where
  "getDownloads d = ran (jobs d)"

definition setDownloadPath :: "downloader \<Rightarrow> string \<Rightarrow> downloader" where
  "setDownloadPath d path = d\<lparr>downloadPath := path\<rparr>"

text \<open>
  The environment lets the awaited call of task \<open>tid\<close> end with \<open>out\<close>: the task runs to
  its next \<open>await\<close> or to its end.  The job object the task holds is the one in the job
  table (ids are fresh, so the table never replaces it).  The \<open>downloadProgress\<close> listener
  of a direct download stays on its stream when the promise of the download has
  settled; a report that arrives after the task has ended is outside the model, and the
  theorems on the order of the callbacks are stated for HLS and DASH jobs.
\<close>

definition resume :: "url_api \<Rightarrow> dom_api \<Rightarrow> downloader \<Rightarrow> nat \<Rightarrow> outcome \<Rightarrow> downloader" where
  "resume U D d tid out =
     (case tasks d tid of
        None \<Rightarrow> d
      | Some t \<Rightarrow>
          (case jobs d (t_job t) of
             None \<Rightarrow> d
           | Some job \<Rightarrow>
               (let s = download_step U D d (t_aborted t) job (t_pc t) out;
                    d1 = d\<lparr>jobs := (jobs d)(t_job t \<mapsto> st_job s),
                           gotCalls := gotCalls d @ map (Pair (t_job t)) (st_calls s),
                           emitted := emitted d @ map (OnProgress (t_job t)) (st_progress s)\<rparr>
                in case st_next s of
                     Await p \<Rightarrow> d1\<lparr>tasks := (tasks d1)(tid \<mapsto> t\<lparr>t_pc := p\<rparr>)\<rparr>
                   | Return \<Rightarrow> finish d1 (t_job t) tid Returned
                   | Throw e \<Rightarrow> finish d1 (t_job t) tid (Thrown e))))"

text \<open>The states a downloader can be in: it is created, and then its methods are called
  and its awaited calls end, in any order; ids are fresh.\<close>

inductive reachable :: "url_api \<Rightarrow> dom_api \<Rightarrow> downloader \<Rightarrow> bool" for U :: url_api and D :: dom_api where
  created: "reachable U D (new_downloader path maxc ffmpeg)"
| started: "reachable U D d \<Longrightarrow> jobs d newId = None \<Longrightarrow> reachable U D (startDownload d newId strm quality)"
| cancelled: "reachable U D d \<Longrightarrow> reachable U D (cancelDownload d jobId)"
| resumed: "reachable U D d \<Longrightarrow> reachable U D (resume U D d tid out)"
| path_set: "reachable U D d \<Longrightarrow> reachable U D (setDownloadPath d path)"

subsection \<open>What the claims about the downloader speak of\<close>

text \<open>The callback calls made for one job and the URLs \<open>got\<close> was called with for it, in
  the order of the calls.\<close>

definition job_events :: "downloader \<Rightarrow> string \<Rightarrow> event list" where
  "job_events d j = filter (\<lambda>e. event_job e = j) (emitted d)"

definition job_got_calls :: "downloader \<Rightarrow> string \<Rightarrow> string list" where
  "job_got_calls d j = map snd (filter (\<lambda>r. fst r = j) (gotCalls d))"

definition job_status :: "downloader \<Rightarrow> string \<Rightarrow> DownloadStatus option" where
  "job_status d j = map_option status (jobs d j)"

text \<open>A job is running when a suspended task works on it.\<close>

definition running :: "downloader \<Rightarrow> string \<Rightarrow> bool" where
  "running d j \<longleftrightarrow> (\<exists>tid t. tasks d tid = Some t \<and> t_job t = j)"

text \<open>Invariants of the reachable states: the queue holds distinct ids of known jobs,
  and controllers exist for known jobs only.\<close>

definition inv_queue :: "downloader \<Rightarrow> bool" where
  "inv_queue d \<longleftrightarrow>
     distinct (queue d) \<and> set (queue d) \<subseteq> dom (jobs d) \<and> dom (abortControllers d) \<subseteq> dom (jobs d)"

text \<open>\<open>processQueue\<close> ends when no slot is free or no job waits, and every method that
  frees a slot or queues a job calls it: a job waits only while no slot is free.\<close>

definition inv_slots :: "downloader \<Rightarrow> bool" where
  "inv_slots d \<longleftrightarrow> queue d = [] \<or> \<not> activeDownloads d < maxConcurrent d"

text \<open>The stream and the states of the scenarios: a DRM-marked HLS stream whose URL
  serves a media playlist with one segment; a downloader with three slots; and the run
  in which the job is started, manifest and playlist arrive, the temporary directory is
  made and the promise of the \<open>got\<close> call for the segment rejects with a transport
  error.\<close>

definition drm_stream :: DetectedStream where
  "drm_stream = \<lparr>s_id = ''stream-1'', s_url = ''https://cdn.example/v.m3u8'', s_type = Hls,
                  protection = ProtDrm, pageTitle = ''Movie''\<rparr>"

definition some_quality :: VideoQuality where
  "some_quality = \<lparr>q_width = Num 1920, q_height = Num 1080, q_label = ''1080p''\<rparr>"

definition no_dom_api :: dom_api where
  "no_dom_api content = TextNode []"

definition fresh_downloader :: downloader where
  "fresh_downloader = new_downloader ''/downloads'' 3 True"

text \<open>A downloader without a free slot, in which the job stays pending.\<close>

definition busy_downloader :: downloader where
  "busy_downloader =
     startDownload (new_downloader ''/downloads'' 0 True) ''job-1'' drm_stream some_quality"

text \<open>A downloader with one slot, in which one job is downloading and a second one
  waits.\<close>

definition waiting_downloader :: downloader where
  "waiting_downloader =
     startDownload
       (startDownload (new_downloader ''/downloads'' 1 True) ''job-1'' drm_stream some_quality)
       ''job-2'' drm_stream some_quality"

definition run_started :: downloader where
  "run_started = startDownload fresh_downloader ''job-1'' drm_stream some_quality"

definition run_playlist_requested :: downloader where
  "run_playlist_requested =
     resume no_url_api no_dom_api run_started 0 (Resolved (Body aes128_media_playlist))"

definition run_mkdir :: downloader where
  "run_mkdir =
     resume no_url_api no_dom_api run_playlist_requested 0 (Resolved (Body aes128_media_playlist))"

definition run_segment_requested :: downloader where
  "run_segment_requested = resume no_url_api no_dom_api run_mkdir 0 (Resolved Nothing)"

definition transport_error :: js_error where
  "transport_error = \<lparr>err_name = ''RequestError'', err_message = ''connect ECONNREFUSED''\<rparr>"

definition run_segment_failed :: downloader where
  "run_segment_failed =
     resume no_url_api no_dom_api run_segment_requested 0 (Rejected transport_error)"

definition abort_error :: js_error where
  "abort_error = \<lparr>err_name = ''AbortError'', err_message = ''This operation was aborted''\<rparr>"

definition run_cancelled :: downloader where
  "run_cancelled = cancelDownload run_segment_requested ''job-1''"

definition run_cancel_observed :: downloader where
  "run_cancel_observed = resume no_url_api no_dom_api run_cancelled 0 (Rejected abort_error)"

text \<open>The job of the runs after it was started, and the shape their states have.\<close>

definition job1_downloading :: DownloadJob where
  "job1_downloading =
     \<lparr>job_id = ''job-1'', stream = drm_stream, selectedQuality = some_quality,
      status = Downloading,
      progress = \<lparr>downloadedBytes = 0, currentSegment = None, totalSegments = None\<rparr>,
      outputPath = None, job_error = None\<rparr>"

definition run_state :: "DownloadJob \<Rightarrow> (nat \<rightharpoonup> task) \<Rightarrow> (string \<rightharpoonup> nat) \<Rightarrow> int \<Rightarrow>
    event list \<Rightarrow> (string \<times> string) list \<Rightarrow> downloader" where
  "run_state job ts cs active es rs =
     \<lparr>downloadPath = ''/downloads'', maxConcurrent = 3, ffmpegAvailable = True,
      jobs = [''job-1'' \<mapsto> job], activeDownloads = active, queue = [],
      abortControllers = cs, tasks = ts, nextTask = 1, emitted = es, gotCalls = rs\<rparr>"

text \<open>The run in which the segment arrives and is written, the segments are merged and
  the temporary directory is removed; and the run in which \<open>cancelDownload\<close> is called
  while the segment, the last one, is being written.\<close>

definition run_segment_written :: downloader where
  "run_segment_written =
     resume no_url_api no_dom_api run_segment_requested 0 (Resolved (Bytes 1024))"

definition run_merging :: downloader where
  "run_merging = resume no_url_api no_dom_api run_segment_written 0 (Resolved Nothing)"

definition run_cleanup :: downloader where
  "run_cleanup = resume no_url_api no_dom_api run_merging 0 (Resolved Nothing)"

definition run_completed :: downloader where
  "run_completed = resume no_url_api no_dom_api run_cleanup 0 (Resolved Nothing)"

definition run_cancelled_late :: downloader where
  "run_cancelled_late = cancelDownload run_segment_written ''job-1''"

definition run_cancel_lost :: downloader where
  "run_cancel_lost =
     resume no_url_api no_dom_api
       (resume no_url_api no_dom_api
          (resume no_url_api no_dom_api run_cancelled_late 0 (Resolved Nothing))
          0 (Resolved Nothing))
       0 (Resolved Nothing)"

subsection \<open>Invariants, steps and runs\<close>

text \<open>A list of events without \<open>onComplete\<close> and \<open>onError\<close>.\<close>

definition progress_only :: "event list \<Rightarrow> bool" where
  "progress_only es \<longleftrightarrow> (\<forall>e \<in> set es. \<not> terminal e)"

text \<open>
  Invariants of the reachable states.  A suspended task has an id below \<open>nextTask\<close>; its
  job is not queued, is \<open>downloading\<close>, \<open>merging\<close> or \<open>cancelled\<close> and has had no
  \<open>onComplete\<close> or \<open>onError\<close>; and no two tasks work on one job.
\<close>

definition task_inv :: "downloader \<Rightarrow> nat \<Rightarrow> task \<Rightarrow> bool" where
  "task_inv d tid t \<longleftrightarrow>
     tid < nextTask d \<and> t_job t \<notin> set (queue d)
     \<and> progress_only (job_events d (t_job t))
     \<and> job_status d (t_job t) \<in> {Some Downloading, Some Merging, Some Cancelled}"

definition inv_tasks :: "downloader \<Rightarrow> bool" where
  "inv_tasks d \<longleftrightarrow>
     (\<forall>tid t. tasks d tid = Some t \<longrightarrow> task_inv d tid t)
     \<and> (\<forall>tid tid' t t'. tasks d tid = Some t \<longrightarrow> tasks d tid' = Some t' \<longrightarrow>
           t_job t = t_job t' \<longrightarrow> tid = tid')"

text \<open>
  For every job id: an id that is unknown or queued has no events, and a queued job is
  \<open>pending\<close>; among the events of a job only the last can be \<open>onComplete\<close> or \<open>onError\<close>,
  and not even the last while the job is \<open>pending\<close>, \<open>downloading\<close> or \<open>merging\<close>; the last
  event of a \<open>completed\<close> job is \<open>onComplete\<close> with its output path, that of a \<open>failed\<close> job
  is \<open>onError\<close> with its error.
\<close>

definition job_inv :: "downloader \<Rightarrow> string \<Rightarrow> bool" where
  "job_inv d j \<longleftrightarrow>
     (jobs d j = None \<longrightarrow> job_events d j = [])
     \<and> (j \<in> set (queue d) \<longrightarrow> job_events d j = [] \<and> job_status d j = Some Pending)
     \<and> progress_only (butlast (job_events d j))
     \<and> (job_status d j \<in> {Some Pending, Some Downloading, Some Merging} \<longrightarrow>
          progress_only (job_events d j))
     \<and> (\<forall>job. jobs d j = Some job \<longrightarrow> status job = Completed \<longrightarrow>
          job_events d j \<noteq> [] \<and> last (job_events d j) = OnComplete j (outputPath job))
     \<and> (\<forall>job. jobs d j = Some job \<longrightarrow> status job = Failed \<longrightarrow>
          job_events d j \<noteq> []
          \<and> (\<exists>msg. job_error job = Some msg \<and> last (job_events d j) = OnError j msg))"

definition inv_events :: "downloader \<Rightarrow> bool" where
  "inv_events d \<longleftrightarrow> (\<forall>j. job_inv d j)"

definition inv :: "downloader \<Rightarrow> bool" where
  "inv d \<longleftrightarrow> inv_queue d \<and> inv_tasks d \<and> inv_events d"

text \<open>One step of a downloader (a method is called or an awaited call ends), and the
  runs made of such steps.\<close>

inductive next_state :: "url_api \<Rightarrow> dom_api \<Rightarrow> downloader \<Rightarrow> downloader \<Rightarrow> bool"
  for U :: url_api and D :: dom_api where
  start: "jobs d newId = None \<Longrightarrow> next_state U D d (startDownload d newId strm quality)"
| cancel: "next_state U D d (cancelDownload d jobId)"
| resume: "next_state U D d (resume U D d tid out)"
| set_path: "next_state U D d (setDownloadPath d path)"

inductive runs_to :: "url_api \<Rightarrow> dom_api \<Rightarrow> downloader \<Rightarrow> downloader \<Rightarrow> bool"
  for U :: url_api and D :: dom_api where
  here: "runs_to U D d d"
| later: "runs_to U D d d' \<Longrightarrow> next_state U D d' d'' \<Longrightarrow> runs_to U D d d''"


section \<open>Evaluation helpers\<close>

lemma replicate_numeral_unfold: "replicate (numeral k) x = x # replicate (pred_numeral k) x"
  by (simp add: numeral_eq_Suc)

lemmas int_eval = parseInt10_def js_space_def is_digit_def decimal_def digit_val_def

lemmas string_of_eval = digits_of.simps digit_char_def

section \<open>Properties of the sort\<close>

lemma set_insort_by [simp]: "set (insort_by cmp x ys) = insert x (set ys)"
  by (induction ys) auto

lemma set_js_sort [simp]: "set (js_sort cmp xs) = set xs"
  by (induction xs) (simp_all add: js_sort_def)

lemma length_insort_by [simp]: "length (insort_by cmp x ys) = Suc (length ys)"
  by (induction ys) auto

lemma length_js_sort [simp]: "length (js_sort cmp xs) = length xs"
  by (induction xs) (simp_all add: js_sort_def)

lemma mset_insort_by [simp]: "mset (insort_by cmp x ys) = add_mset x (mset ys)"
  by (induction ys) auto

lemma mset_js_sort [simp]: "mset (js_sort cmp xs) = mset xs"
  by (induction xs) (simp_all add: js_sort_def)

lemma js_ge_Num: "a \<noteq> NaN \<Longrightarrow> b \<noteq> NaN \<Longrightarrow> js_ge a b \<or> js_ge b a"
  by (cases a; cases b) auto

lemma js_ge_trans: "js_ge a b \<Longrightarrow> js_ge b c \<Longrightarrow> js_ge a c"
  by (cases a; cases b; cases c) auto

lemma not_positive_sub: "a \<noteq> NaN \<Longrightarrow> b \<noteq> NaN \<Longrightarrow> \<not> js_positive (js_sub b a) \<Longrightarrow> js_ge a b"
  by (cases a; cases b) auto

lemma positive_sub: "js_positive (js_sub b a) \<Longrightarrow> js_ge b a"
  by (cases a; cases b) auto

text \<open>Inserting with the comparator \<open>(a, b) => key(b) - key(a)\<close> keeps a list in descending
  order of its keys, as long as no key is \<open>NaN\<close>.\<close>

lemma insort_by_descending:
  assumes "\<And>a b. cmp a b = js_sub (key b) (key a)"
    and "key x \<noteq> NaN" and "\<forall>y \<in> set ys. key y \<noteq> NaN"
    and "sorted_wrt (\<lambda>a b. js_ge (key a) (key b)) ys"
  shows "sorted_wrt (\<lambda>a b. js_ge (key a) (key b)) (insort_by cmp x ys)"
  using assms(3,4)
proof (induction ys)
  case Nil
  then show ?case by simp
next
  case (Cons y ys)
  show ?case
  proof (cases "js_positive (cmp x y)")
    case True
    then have yx: "js_ge (key y) (key x)"
      using assms(1) positive_sub by simp
    have "sorted_wrt (\<lambda>a b. js_ge (key a) (key b)) (insort_by cmp x ys)"
      using Cons by simp
    then show ?thesis
      using True yx Cons.prems by auto
  next
    case False
    then have xy: "js_ge (key x) (key y)"
      using assms(1,2) Cons.prems(1) not_positive_sub [of "key x" "key y"] by simp
    then have "\<forall>z \<in> set ys. js_ge (key x) (key z)"
      using Cons.prems(2) js_ge_trans by fastforce
    then show ?thesis
      using False xy Cons.prems by simp
  qed
qed

lemma js_sort_descending:
  assumes "\<And>a b. cmp a b = js_sub (key b) (key a)"
    and "\<forall>x \<in> set xs. key x \<noteq> NaN"
  shows "sorted_wrt (\<lambda>a b. js_ge (key a) (key b)) (js_sort cmp xs)"
  using assms(2)
proof (induction xs)
  case Nil
  then show ?case by (simp add: js_sort_def)
next
  case (Cons x xs)
  have "sorted_wrt (\<lambda>a b. js_ge (key a) (key b)) (insort_by cmp x (js_sort cmp xs))"
    by (rule insort_by_descending [OF assms(1)]) (use Cons in auto)
  then show ?case by (simp add: js_sort_def)
qed

text \<open>The same for \<open>(a, b) => key(a) - key(b)\<close> and ascending order.\<close>

lemma js_sort_ascending:
  assumes "\<And>a b. cmp a b = js_sub (key a) (key b)"
    and "\<forall>x \<in> set xs. key x \<noteq> NaN"
  shows "sorted_wrt (\<lambda>a b. js_le (key a) (key b)) (js_sort cmp xs)"
proof -
  define nkey where "nkey x = js_sub (Num 0) (key x)" for x
  have c: "cmp a b = js_sub (nkey b) (nkey a)" for a b
    unfolding nkey_def assms(1) by (cases "key a"; cases "key b") simp_all
  have n: "\<forall>x \<in> set xs. nkey x \<noteq> NaN"
  proof
    fix x assume "x \<in> set xs"
    then have "key x \<noteq> NaN" using assms(2) by simp
    then show "nkey x \<noteq> NaN" unfolding nkey_def by (cases "key x") simp_all
  qed
  have e: "js_ge (nkey a) (nkey b) = js_le (key a) (key b)" for a b
    unfolding nkey_def js_le_def by (cases "key a"; cases "key b") simp_all
  from js_sort_descending [of cmp nkey, OF c n] show ?thesis
    by (simp add: e)
qed

section \<open>Properties of the native-messaging decoder\<close>

lemma le32_digits:
  fixes n :: nat
  assumes "n < 4294967296"
  shows "n mod 256 + 256 * (n div 256 mod 256) + 65536 * (n div 65536 mod 256)
        + 16777216 * (n div 16777216 mod 256) = n"
proof -
  have a: "n mod 65536 = 256 * (n div 256 mod 256) + n mod 256"
    using mod_mult2_eq [of n 256 256] by simp
  have b: "n mod 16777216 = 65536 * (n div 65536 mod 256) + n mod 65536"
    using mod_mult2_eq [of n 65536 256] by simp
  have c: "n mod 4294967296 = 16777216 * (n div 16777216 mod 256) + n mod 16777216"
    using mod_mult2_eq [of n 16777216 256] by simp
  have "n mod 4294967296 = n" using assms by simp
  with a b c show ?thesis by linarith
qed

lemma readUInt32LE_writeUInt32LE:
  assumes "n < 4294967296"
  shows "readUInt32LE (writeUInt32LE n @ xs) = Some n"
proof -
  have "n div 16777216 < 256" using assms by simp
  then have "n div 16777216 mod 256 = n div 16777216" by simp
  with le32_digits [OF assms] show ?thesis
    by (simp add: writeUInt32LE_def)
qed

lemma length_writeUInt32LE [simp]: "length (writeUInt32LE n) = 4"
  by (simp add: writeUInt32LE_def)

lemma length_frame [simp]: "length (frame body) = 4 + length body"
  by (simp add: frame_def)

lemma drain_short: "length buf < 4 \<Longrightarrow> drain parse buf = (buf, [])"
  by (subst drain.simps) simp

text \<open>One complete frame at the head of the buffer is consumed, whatever its length.\<close>

lemma drain_frame:
  assumes "length body < 4294967296"
  shows "drain parse (frame body @ rest) =
           (fst (drain parse rest), classify parse body # snd (drain parse rest))"
proof -
  have "readUInt32LE (frame body @ rest) = Some (length body)"
    using readUInt32LE_writeUInt32LE [OF assms] by (simp add: frame_def)
  then show ?thesis
    by (subst drain.simps) (simp add: frame_def classify_def Let_def)
qed

lemma drain_frames:
  assumes "\<forall>b \<in> set bodies. length b < 4294967296"
  shows "drain parse (concat (map frame bodies) @ rest) =
           (fst (drain parse rest), map (classify parse) bodies @ snd (drain parse rest))"
  using assms
proof (induction bodies)
  case Nil
  then show ?case by simp
next
  case (Cons b bodies)
  then show ?case by (simp add: drain_frame)
qed

text \<open>A frame that has not arrived in full stays in the buffer and nothing happens.\<close>

lemma drain_partial_frame:
  assumes "length body < 4294967296" and "k < 4 + length body"
  shows "drain parse (take k (frame body)) = (take k (frame body), [])"
proof (cases "k < 4")
  case True
  then show ?thesis by (simp add: drain_short)
next
  case False
  then have "take k (frame body) = writeUInt32LE (length body) @ take (k - 4) body"
    by (simp add: frame_def)
  moreover have "readUInt32LE (writeUInt32LE (length body) @ take (k - 4) body) = Some (length body)"
    by (rule readUInt32LE_writeUInt32LE [OF assms(1)])
  ultimately show ?thesis
    using assms(2) False by (subst drain.simps) simp
qed

text \<open>Where the chunk boundaries fall makes no difference: draining the left-over of
  \<open>a\<close> followed by \<open>b\<close> continues the draining of \<open>a @ b\<close>.\<close>

lemma drain_append:
  "drain parse (fst (drain parse a) @ b) =
     (fst (drain parse (a @ b)), drop (length (snd (drain parse a))) (snd (drain parse (a @ b))))
   \<and> take (length (snd (drain parse a))) (snd (drain parse (a @ b))) = snd (drain parse a)"
proof (induction parse a rule: drain.induct)
  case (1 parse buf)
  show ?case
  proof (cases "4 \<le> length buf")
    case False
    then show ?thesis by (simp add: drain_short)
  next
    case long: True
    then obtain n where n: "readUInt32LE buf = Some n"
      by (cases buf rule: readUInt32LE.cases) auto
    have n': "readUInt32LE (buf @ b) = Some n"
      using n long by (cases buf rule: readUInt32LE.cases) auto
    show ?thesis
    proof (cases "length buf < 4 + n")
      case True
      then have "drain parse buf = (buf, [])"
        using long n by (subst drain.simps) simp
      then show ?thesis by simp
    next
      case False
      let ?rest = "drop (4 + n) buf"
      have ih: "drain parse (fst (drain parse ?rest) @ b) =
         (fst (drain parse (?rest @ b)),
          drop (length (snd (drain parse ?rest))) (snd (drain parse (?rest @ b))))
        \<and> take (length (snd (drain parse ?rest))) (snd (drain parse (?rest @ b)))
           = snd (drain parse ?rest)"
        using "1.IH" [OF long n False refl] .
      have d1: "drain parse buf = (fst (drain parse ?rest),
                  classify parse (take n (drop 4 buf)) # snd (drain parse ?rest))"
        using long n False by (subst drain.simps) (simp add: Let_def classify_def)
      have d2: "drain parse (buf @ b) = (fst (drain parse (?rest @ b)),
                  classify parse (take n (drop 4 buf)) # snd (drain parse (?rest @ b)))"
        using long n' False by (subst drain.simps) (simp add: Let_def classify_def)
      show ?thesis using ih by (simp add: d1 d2)
    qed
  qed
qed

lemma drain_idem: "drain parse (fst (drain parse a)) = (fst (drain parse a), [])"
  using drain_append [of parse a "[]"] by simp

lemma feed_drain:
  assumes "drain parse (buffer h) = (buffer h, [])"
  shows "feed parse h chunks =
     (h\<lparr>buffer := fst (drain parse (buffer h @ concat chunks))\<rparr>,
      snd (drain parse (buffer h @ concat chunks)))"
  using assms
proof (induction chunks arbitrary: h)
  case Nil
  then show ?case by simp
next
  case (Cons d ds)
  let ?h1 = "h\<lparr>buffer := fst (drain parse (buffer h @ d))\<rparr>"
  let ?o1 = "snd (drain parse (buffer h @ d))"
  let ?all = "snd (drain parse ((buffer h @ d) @ concat ds))"
  have a: "drain parse (fst (drain parse (buffer h @ d)) @ concat ds) =
     (fst (drain parse ((buffer h @ d) @ concat ds)), drop (length ?o1) ?all)"
   and b: "take (length ?o1) ?all = ?o1"
    using drain_append [of parse "buffer h @ d" "concat ds"] by blast+
  have c: "?o1 @ drop (length ?o1) ?all = ?all"
    using b append_take_drop_id by metis
  have "drain parse (buffer ?h1) = (buffer ?h1, [])"
    by (simp add: drain_idem)
  from Cons.IH [OF this] show ?case
    using c by (simp add: handleData_def Let_def a)
qed

text \<open>The decoder is correct on any chunking of a sequence of frames.\<close>

lemma frames_decoded:
  assumes "\<forall>b \<in> set bodies. length b < 4294967296"
    and "buffer h = []"
    and "concat chunks = concat (map frame bodies)"
  shows "feed parse h chunks = (h, map (classify parse) bodies)"
proof -
  have d: "drain parse (buffer h) = (buffer h, [])"
    using assms(2) by (simp add: drain_short)
  have e: "drain parse (concat (map frame bodies) @ []) = ([], map (classify parse) bodies)"
    using drain_frames [OF assms(1), of parse "[]"] by (simp add: drain_short)
  show ?thesis
    using feed_drain [OF d, of chunks] assms(2,3) e by simp
qed

lemma partial_frame_buffered:
  assumes "length body < 4294967296" and "k < 4 + length body"
    and "buffer h = []"
    and "concat chunks = take k (frame body)"
  shows "feed parse h chunks = (h\<lparr>buffer := take k (frame body)\<rparr>, [])"
proof -
  have d: "drain parse (buffer h) = (buffer h, [])"
    using assms(3) by (simp add: drain_short)
  show ?thesis
    using feed_drain [OF d, of chunks] assms(3,4) drain_partial_frame [OF assms(1,2), of parse]
    by simp
qed

lemma skip_ws_blanks [simp]: "skip_ws (replicate n CHR '' '') = []"
  by (simp add: skip_ws_def is_ws_def)

lemma json_parse_padded_ping:
  "json_parse (ping_text @ replicate n CHR '' '') = Some ping_message"
  by (simp add: json_parse_def ping_text_def ping_message_def skip_ws_def is_ws_def
      json_members.simps json_scalar_def json_number_def is_digit_def decimal_def digit_val_def)

lemma json_parse_ping: "json_parse ping_text = Some ping_message"
  using json_parse_padded_ping [of 0] by simp

lemma json_parse_PING0: "json_parse ''PING0'' = None"
  by (simp add: json_parse_def skip_ws_def is_ws_def json_scalar_def json_number_def is_digit_def)

lemma length_oversized_ping: "length oversized_ping = 1048577"
  by (simp add: oversized_ping_def ping_text_def)

text \<open>
  \<^bold>\<open>Claim C4\<close>, as stated: a frame whose declared body length exceeds 1 MiB is discarded,
  its bytes are not delivered to the message handler.  It fails: \<open>handleData\<close> compares the
  declared length with nothing but the number of buffered bytes.  A frame of 1 MiB + 1
  bytes that holds a PING message is handed to the handler.
\<close>

theorem oversized_frame_counterexample:
  "1048576 < length oversized_ping
   \<and> feed json_parse idle_host [frame oversized_ping] = (idle_host, [Delivered ping_message])"
proof -
  have c: "classify json_parse oversized_ping = Delivered ping_message"
    by (simp add: classify_def oversized_ping_def json_parse_padded_ping)
  have "feed json_parse idle_host [frame oversized_ping]
          = (idle_host, map (classify json_parse) [oversized_ping])"
    by (rule frames_decoded) (simp_all add: length_oversized_ping idle_host_def)
  with c show ?thesis
    by (simp add: length_oversized_ping del: feed.simps)
qed

text \<open>
  \<^bold>\<open>Claim C4\<close>, amended: the decoder has no size limit.  A frame whose declared body length
  exceeds 1 MiB is buffered until all of its bytes have arrived (nothing is delivered or
  logged before) and is then treated like any other frame: its message goes to the handler
  when the body parses, and the failure is logged otherwise.  The host stays as it was
  (running flag untouched, buffer empty again); the only outputs are the handler call and
  the console log.
\<close>

theorem oversized_frame_handled_like_any_other:
  assumes "1048576 < length body" and "length body < 4294967296"
    and "buffer h = []"
  shows "(concat chunks = frame body \<longrightarrow> feed parse h chunks = (h, [classify parse body]))
       \<and> (k < 4 + length body \<and> concat chunks = take k (frame body) \<longrightarrow>
            feed parse h chunks = (h\<lparr>buffer := take k (frame body)\<rparr>, []))"
proof -
  have "\<forall>b \<in> set [body]. length b < 4294967296"
    using assms(2) by simp
  from frames_decoded [OF this assms(3), of chunks parse]
  have "concat chunks = frame body \<longrightarrow> feed parse h chunks = (h, [classify parse body])"
    by simp
  moreover have "k < 4 + length body \<and> concat chunks = take k (frame body) \<longrightarrow>
            feed parse h chunks = (h\<lparr>buffer := take k (frame body)\<rparr>, [])"
    using partial_frame_buffered [OF assms(2) _ assms(3)] by blast
  ultimately show ?thesis by blast
qed

theorem oversized_frame_handled_like_any_other_witness:
  "1048576 < length oversized_ping \<and> length oversized_ping < 4294967296
   \<and> buffer idle_host = []
   \<and> concat [take 100 (frame oversized_ping), drop 100 (frame oversized_ping)] = frame oversized_ping
   \<and> feed json_parse idle_host [take 100 (frame oversized_ping), drop 100 (frame oversized_ping)]
       = (idle_host, [Delivered ping_message])
   \<and> feed json_parse idle_host [take 100 (frame oversized_ping)]
       = (idle_host\<lparr>buffer := take 100 (frame oversized_ping)\<rparr>, [])"
proof -
  have a: "1048576 < length oversized_ping" "length oversized_ping < 4294967296"
    by (simp_all add: length_oversized_ping)
  have b: "buffer idle_host = []" by (simp add: idle_host_def)
  have c: "classify json_parse oversized_ping = Delivered ping_message"
    by (simp add: classify_def oversized_ping_def json_parse_padded_ping)
  have d: "(100::nat) < 4 + length oversized_ping" by (simp add: length_oversized_ping)
  from oversized_frame_handled_like_any_other [OF a b,
      of "[take 100 (frame oversized_ping), drop 100 (frame oversized_ping)]" json_parse 0]
  have e: "feed json_parse idle_host [take 100 (frame oversized_ping), drop 100 (frame oversized_ping)]
       = (idle_host, [Delivered ping_message])"
    by (simp add: c)
  from oversized_frame_handled_like_any_other [OF a b,
      of "[take 100 (frame oversized_ping)]" json_parse 100] d
  have f: "feed json_parse idle_host [take 100 (frame oversized_ping)]
       = (idle_host\<lparr>buffer := take 100 (frame oversized_ping)\<rparr>, [])"
    by simp
  show ?thesis using a b e f by simp
qed

text \<open>
  \<^bold>\<open>Claim C5\<close>: a complete frame whose body is not valid JSON is consumed, exactly its
  bytes, and logged; the host is not stopped, and the decoder stays in step: a well-formed
  frame that follows in the same stream is parsed and delivered to the handler.  This
  holds after any sequence of earlier frames and for any split of the byte stream into
  chunks.
\<close>

theorem malformed_frame_discarded_next_frame_delivered:
  assumes "parse bad = None" and "parse good = Some m"
    and "length bad < 4294967296" and "length good < 4294967296"
    and "\<forall>b \<in> set earlier. length b < 4294967296"
    and "buffer h = []"
    and "concat chunks = concat (map frame earlier) @ frame bad @ frame good"
  shows "feed parse h chunks =
           (h, map (classify parse) earlier @ [ParseFailure, Delivered m])"
proof -
  have "\<forall>b \<in> set (earlier @ [bad, good]). length b < 4294967296"
    using assms(3,4,5) by auto
  from frames_decoded [OF this assms(6), of chunks parse] assms(1,2,7)
  show ?thesis by (simp add: classify_def)
qed

theorem malformed_frame_discarded_next_frame_delivered_witness:
  "json_parse ''PING0'' = None \<and> json_parse ping_text = Some ping_message
   \<and> concat [take 7 scenario6_stream, drop 7 scenario6_stream]
       = frame ''PING0'' @ frame ping_text
   \<and> feed json_parse idle_host [take 7 scenario6_stream, drop 7 scenario6_stream]
       = (idle_host, [ParseFailure, Delivered ping_message])"
proof -
  have a: "length ''PING0'' < (4294967296::nat)" "length ping_text < 4294967296"
    by (simp_all add: ping_text_def)
  have b: "\<forall>b \<in> set ([] :: byte list list). length b < 4294967296" by simp
  have c: "buffer idle_host = []" by (simp add: idle_host_def)
  have d: "concat [take 7 scenario6_stream, drop 7 scenario6_stream]
       = concat (map frame []) @ frame ''PING0'' @ frame ping_text"
    by (simp add: scenario6_stream_def)
  from malformed_frame_discarded_next_frame_delivered
         [OF json_parse_PING0 json_parse_ping a b c d]
  show ?thesis
    using json_parse_PING0 json_parse_ping d by simp
qed

section \<open>Properties of the HLS parser\<close>

lemma key_is_drm_make_key:
  "key_is_drm (make_key U baseUrl attrs) \<longleftrightarrow> method_is_drm attrs \<or> keyformat_is_drm attrs"
  by (simp add: key_is_drm_def make_key_def method_is_drm_def keyformat_is_drm_def)

lemma media_loop_isDRM:
  "isDRM (media_loop U baseUrl ls acc) \<longleftrightarrow>
     isDRM acc
     \<or> list_ex (\<lambda>l. startsWith l ''#EXT-X-KEY:''
                  \<and> key_is_drm (make_key U baseUrl (parseAttributes (drop 11 l)))) ls"
  by (induction ls arbitrary: acc) (auto simp: Let_def)

lemma parseMediaPlaylist_isDRM:
  "isDRM (parseMediaPlaylist U (manifest_lines content) baseUrl) \<longleftrightarrow>
     list_ex method_is_drm (key_tags content) \<or> list_ex keyformat_is_drm (key_tags content)"
  by (auto simp: parseMediaPlaylist_def media_loop_isDRM key_is_drm_make_key key_tags_def
      list_ex_iff)

lemma master_body_isDRM:
  "m_isDRM (master_body U baseUrl line rest acc) \<longleftrightarrow> m_isDRM acc \<or> master_drm_line line"
  by (simp add: master_body_def Let_def)

lemma master_loop_isDRM:
  "m_isDRM (master_loop U baseUrl ls acc) \<longleftrightarrow>
     m_isDRM acc \<or> list_ex master_drm_line (examined_lines ls)"
proof (induction U baseUrl ls acc rule: master_loop.induct)
  case (1 U baseUrl acc)
  then show ?case by simp
next
  case (2 U baseUrl line rest acc)
  show ?case
  proof (cases rest)
    case Nil
    then show ?thesis
      by (simp add: master_takes_next_def master_body_isDRM)
  next
    case (Cons n rest')
    then show ?thesis
      using "2.IH" by (auto simp: master_takes_next_def master_body_isDRM)
  qed
qed

lemma parseMasterPlaylist_isDRM:
  "m_isDRM (parseMasterPlaylist U ls baseUrl) \<longleftrightarrow> list_ex master_drm_line (examined_lines ls)"
  by (simp add: parseMasterPlaylist_def Let_def master_loop_isDRM)

lemma parseHLSManifest_Media:
  assumes "parseHLSManifest U content baseUrl = Inr (Media p)"
  shows "p = parseMediaPlaylist U (manifest_lines content) baseUrl"
    and "\<not> isMaster (manifest_lines content)"
  using assms by (auto simp: parseHLSManifest_def Let_def split: if_splits)

lemma parseHLSManifest_Master:
  assumes "parseHLSManifest U content baseUrl = Inr (Master q)"
  shows "q = parseMasterPlaylist U (manifest_lines content) baseUrl"
  using assms by (auto simp: parseHLSManifest_def Let_def split: if_splits)

lemma getHLSProtection_not_drm:
  "\<not> playlist_isDRM pl \<Longrightarrow> getHLSProtection pl = ProtNone"
  by (simp add: getHLSProtection_def split: HLSPlaylist.splits option.splits)

text \<open>Evaluation of the scenario manifests.\<close>

lemma lines_aes128_media_playlist:
  \<open>manifest_lines aes128_media_playlist =
     [''#EXTM3U'', ''#EXT-X-TARGETDURATION:10'', ''#EXT-X-KEY:METHOD=AES-128,URI="k.bin"'',
      ''#EXTINF:10,'', ''https://cdn.example/seg0.ts'']\<close>
  by (simp add: aes128_media_playlist_def text_of_lines_def manifest_lines_def trim_def js_space_def)

lemma lines_sample_aes_master:
  \<open>manifest_lines sample_aes_master =
     [''#EXTM3U'', ''#EXT-X-KEY:METHOD=SAMPLE-AES,KEYFORMAT="com.apple.streamingkeydelivery"'',
      ''#EXT-X-STREAM-INF:BANDWIDTH=5000000,RESOLUTION=1920x1080'',
      ''https://cdn.example/hi.m3u8'']\<close>
  by (simp add: sample_aes_master_def text_of_lines_def manifest_lines_def trim_def js_space_def)

lemma lines_aes256_master:
  \<open>manifest_lines aes256_master =
     [''#EXTM3U'', ''#EXT-X-KEY:METHOD=AES-256,URI="k.bin"'',
      ''#EXT-X-STREAM-INF:BANDWIDTH=1000000'', ''https://cdn.example/lo.m3u8'']\<close>
  by (simp add: aes256_master_def text_of_lines_def manifest_lines_def trim_def js_space_def)

lemma lines_malformed_bandwidth_master:
  \<open>manifest_lines malformed_bandwidth_master =
     [''#EXTM3U'',
      ''#EXT-X-STREAM-INF:BANDWIDTH=5000000'', ''https://cdn.example/a.m3u8'',
      ''#EXT-X-STREAM-INF:BANDWIDTH=high'', ''https://cdn.example/b.m3u8'',
      ''#EXT-X-STREAM-INF:BANDWIDTH=7000000'', ''https://cdn.example/c.m3u8'']\<close>
  by (simp add: malformed_bandwidth_master_def text_of_lines_def manifest_lines_def trim_def
      js_space_def)

lemmas attr_eval =
  parseAttributes_def parseAttributes_loop.simps attr_match_def unquoted_value_def is_key_char_def

lemma key_tags_aes128_media_playlist:
  "map (\<lambda>a. (a ''METHOD'', a ''KEYFORMAT'')) (key_tags aes128_media_playlist)
     = [(Some ''AES-128'', None)]"
  by (simp add: key_tags_def lines_aes128_media_playlist startsWith_def attr_eval)

lemma parse_aes128_media_playlist:
  "parseHLSManifest U aes128_media_playlist b
     = Inr (Media (parseMediaPlaylist U (manifest_lines aes128_media_playlist) b))"
  by (simp add: parseHLSManifest_def lines_aes128_media_playlist startsWith_def isMaster_def)

lemma parse_sample_aes_master:
  "parseHLSManifest U sample_aes_master b
     = Inr (Master (parseMasterPlaylist U (manifest_lines sample_aes_master) b))"
  by (simp add: parseHLSManifest_def lines_sample_aes_master startsWith_def isMaster_def)

lemma parse_aes256_master:
  "parseHLSManifest U aes256_master b
     = Inr (Master (parseMasterPlaylist U (manifest_lines aes256_master) b))"
  by (simp add: parseHLSManifest_def lines_aes256_master startsWith_def isMaster_def)

lemma parse_malformed_bandwidth_master:
  "parseHLSManifest U malformed_bandwidth_master b
     = Inr (Master (parseMasterPlaylist U (manifest_lines malformed_bandwidth_master) b))"
  by (simp add: parseHLSManifest_def lines_malformed_bandwidth_master startsWith_def isMaster_def)

text \<open>
  \<^bold>\<open>Claim C6\<close>, as stated: \<open>parseHLSManifest\<close> sets \<open>is_drm\<close> if and only if the manifest has
  a key \<open>METHOD\<close> outside \<open>NONE\<close> and \<open>AES-128\<close>, a \<open>KEYFORMAT\<close> containing \<open>widevine\<close> or
  \<open>fairplay\<close>, or, in a master manifest, a raw occurrence of \<open>com.widevine\<close> or
  \<open>com.apple.fps\<close>.  It fails on a master manifest: the master loop does not parse key
  tags, it looks for the text \<open>METHOD=SAMPLE-AES\<close>.  A master manifest with a key tag of
  method \<open>AES-256\<close> is DRM by the claim and not by the parser.
\<close>

theorem master_key_method_counterexample:
  "spec_is_drm aes256_master
   \<and> parseHLSManifest no_url_api aes256_master ''https://cdn.example/master.m3u8''
       = Inr (Master (parseMasterPlaylist no_url_api (manifest_lines aes256_master)
                        ''https://cdn.example/master.m3u8''))
   \<and> \<not> m_isDRM (parseMasterPlaylist no_url_api (manifest_lines aes256_master)
                    ''https://cdn.example/master.m3u8'')"
proof -
  have "method_is_drm (parseAttributes (drop 11 ''#EXT-X-KEY:METHOD=AES-256,URI=\"k.bin\"''))"
    by (simp add: method_is_drm_def or_default_def attr_eval)
  then have a: "spec_is_drm aes256_master"
    by (simp add: spec_is_drm_def key_tags_def lines_aes256_master startsWith_def)
  have b: "\<not> list_ex master_drm_line (examined_lines (manifest_lines aes256_master))"
    by (simp add: lines_aes256_master startsWith_def master_drm_line_def includesStr_def
        sublist_Cons_right)
  show ?thesis
    using a b by (simp add: parse_aes256_master parseMasterPlaylist_isDRM)
qed

text \<open>
  \<^bold>\<open>Claim C6\<close>, amended.  For a media playlist the equivalence holds as stated: \<open>is_drm\<close>
  is set if and only if some \<open>#EXT-X-KEY:\<close> tag has a \<open>METHOD\<close> outside \<open>NONE\<close> and
  \<open>AES-128\<close> or a \<open>KEYFORMAT\<close> containing \<open>widevine\<close> or \<open>fairplay\<close>; a media playlist
  that is not DRM has protection \<open>none\<close>, in particular one whose key tags all have
  \<open>METHOD=AES-128\<close> and no \<open>KEYFORMAT\<close>.  For a master playlist \<open>is_drm\<close> is set if and
  only if some examined line (every line but the URI line taken after a
  \<open>#EXT-X-STREAM-INF:\<close> tag) contains both \<open>EXT-X-KEY\<close> and \<open>METHOD=SAMPLE-AES\<close>, or
  contains \<open>com.widevine\<close> or \<open>com.apple.fps\<close>; other key methods and \<open>KEYFORMAT\<close> are not
  looked at in a master playlist.
\<close>

theorem hls_protection_detection:
  "(parseHLSManifest U content baseUrl = Inr (Media p) \<longrightarrow>
      (isDRM p \<longleftrightarrow> spec_is_drm content)
      \<and> (\<not> isDRM p \<longrightarrow> getHLSProtection (Media p) = ProtNone)
      \<and> ((\<forall>a \<in> set (key_tags content). a ''METHOD'' = Some ''AES-128'' \<and> a ''KEYFORMAT'' = None)
           \<longrightarrow> \<not> isDRM p))
   \<and> (parseHLSManifest U content' baseUrl' = Inr (Master q) \<longrightarrow>
      (m_isDRM q \<longleftrightarrow> list_ex master_drm_line (examined_lines (manifest_lines content'))))"
proof -
  have media: "(isDRM p \<longleftrightarrow> spec_is_drm content)
      \<and> (\<not> isDRM p \<longrightarrow> getHLSProtection (Media p) = ProtNone)
      \<and> ((\<forall>a \<in> set (key_tags content). a ''METHOD'' = Some ''AES-128'' \<and> a ''KEYFORMAT'' = None)
           \<longrightarrow> \<not> isDRM p)"
    if h: "parseHLSManifest U content baseUrl = Inr (Media p)"
  proof -
    note p = parseHLSManifest_Media [OF h]
    have drm: "isDRM p \<longleftrightarrow>
        list_ex method_is_drm (key_tags content) \<or> list_ex keyformat_is_drm (key_tags content)"
      unfolding p(1) by (rule parseMediaPlaylist_isDRM)
    have 1: "isDRM p \<longleftrightarrow> spec_is_drm content"
      using drm p(2) by (simp add: spec_is_drm_def)
    have 2: "\<not> isDRM p \<longrightarrow> getHLSProtection (Media p) = ProtNone"
      by (simp add: getHLSProtection_not_drm)
    have 3: "(\<forall>a \<in> set (key_tags content). a ''METHOD'' = Some ''AES-128'' \<and> a ''KEYFORMAT'' = None)
           \<longrightarrow> \<not> isDRM p"
      unfolding drm
      by (auto simp: list_ex_iff method_is_drm_def keyformat_is_drm_def or_default_def)
    show ?thesis using 1 2 3 by blast
  qed
  have master: "m_isDRM q \<longleftrightarrow> list_ex master_drm_line (examined_lines (manifest_lines content'))"
    if h: "parseHLSManifest U content' baseUrl' = Inr (Master q)"
    unfolding parseHLSManifest_Master [OF h] by (rule parseMasterPlaylist_isDRM)
  show ?thesis using media master by blast
qed

theorem hls_protection_detection_witness:
  "parseHLSManifest no_url_api aes128_media_playlist ''https://cdn.example/v.m3u8''
     = Inr (Media (parseMediaPlaylist no_url_api (manifest_lines aes128_media_playlist)
                     ''https://cdn.example/v.m3u8''))
   \<and> map (\<lambda>a. (a ''METHOD'', a ''KEYFORMAT'')) (key_tags aes128_media_playlist)
       = [(Some ''AES-128'', None)]
   \<and> \<not> isDRM (parseMediaPlaylist no_url_api (manifest_lines aes128_media_playlist)
                  ''https://cdn.example/v.m3u8'')
   \<and> \<not> spec_is_drm aes128_media_playlist
   \<and> getHLSProtection (Media (parseMediaPlaylist no_url_api (manifest_lines aes128_media_playlist)
                                 ''https://cdn.example/v.m3u8'')) = ProtNone
   \<and> parseHLSManifest no_url_api sample_aes_master ''https://cdn.example/master.m3u8''
       = Inr (Master (parseMasterPlaylist no_url_api (manifest_lines sample_aes_master)
                        ''https://cdn.example/master.m3u8''))
   \<and> m_isDRM (parseMasterPlaylist no_url_api (manifest_lines sample_aes_master)
                 ''https://cdn.example/master.m3u8'')
   \<and> getHLSProtection (Master (parseMasterPlaylist no_url_api (manifest_lines sample_aes_master)
                                  ''https://cdn.example/master.m3u8'')) = ProtDrm"
proof -
  let ?p = "parseMediaPlaylist no_url_api (manifest_lines aes128_media_playlist)
              ''https://cdn.example/v.m3u8''"
  let ?q = "parseMasterPlaylist no_url_api (manifest_lines sample_aes_master)
              ''https://cdn.example/master.m3u8''"
  have k: "\<forall>a \<in> set (key_tags aes128_media_playlist).
             a ''METHOD'' = Some ''AES-128'' \<and> a ''KEYFORMAT'' = None"
    by (simp add: key_tags_def lines_aes128_media_playlist startsWith_def attr_eval)
  have e: "list_ex master_drm_line (examined_lines (manifest_lines sample_aes_master))"
    by (simp add: lines_sample_aes_master startsWith_def master_drm_line_def includesStr_def
        sublist_Cons_right)
  note t = hls_protection_detection
         [of no_url_api aes128_media_playlist "''https://cdn.example/v.m3u8''" ?p
             sample_aes_master "''https://cdn.example/master.m3u8''" ?q]
  have m: "(isDRM ?p \<longleftrightarrow> spec_is_drm aes128_media_playlist)
      \<and> (\<not> isDRM ?p \<longrightarrow> getHLSProtection (Media ?p) = ProtNone)
      \<and> ((\<forall>a \<in> set (key_tags aes128_media_playlist).
              a ''METHOD'' = Some ''AES-128'' \<and> a ''KEYFORMAT'' = None) \<longrightarrow> \<not> isDRM ?p)"
    using t parse_aes128_media_playlist [of no_url_api "''https://cdn.example/v.m3u8''"]
    by blast
  have "m_isDRM ?q \<longleftrightarrow> list_ex master_drm_line (examined_lines (manifest_lines sample_aes_master))"
    using t parse_sample_aes_master [of no_url_api "''https://cdn.example/master.m3u8''"]
    by blast
  with m k e have "\<not> isDRM ?p" "\<not> spec_is_drm aes128_media_playlist"
       "getHLSProtection (Media ?p) = ProtNone" "m_isDRM ?q"
    by blast+
  then show ?thesis
    by (simp add: parse_aes128_media_playlist parse_sample_aes_master
        key_tags_aes128_media_playlist getHLSProtection_def)
qed

text \<open>The variants of a parsed master playlist are a permutation of the variants read, in
  descending order of bandwidth as long as every bandwidth is a number.\<close>

lemma parseMasterPlaylist_sorted:
  assumes "\<forall>v \<in> set (variants (parseMasterPlaylist U ls baseUrl)). bandwidth v \<noteq> NaN"
  shows "sorted_wrt (\<lambda>a b. js_ge (bandwidth a) (bandwidth b))
           (variants (parseMasterPlaylist U ls baseUrl))"
proof -
  let ?r = "master_loop U baseUrl ls \<lparr>variants = [], audioGroups = Map.empty, m_isDRM = False\<rparr>"
  have v: "variants (parseMasterPlaylist U ls baseUrl) = js_sort variant_compare (variants ?r)"
    by (simp add: parseMasterPlaylist_def Let_def)
  have "\<forall>x \<in> set (variants ?r). bandwidth x \<noteq> NaN"
    using assms unfolding v by simp
  then show ?thesis
    unfolding v by (rule js_sort_descending [rotated]) (simp add: variant_compare_def)
qed

section \<open>Properties of the DASH parser\<close>

lemma spec_count_eq: "spec_count s = repeat_count s"
proof (cases "s_repeat s")
  case None
  then show ?thesis by (simp add: spec_count_def repeat_count_def)
next
  case (Some r)
  then show ?thesis by (cases r) (simp_all add: spec_count_def repeat_count_def)
qed

lemma advance_0 [simp]: "advance x d 0 = x"
  by (simp add: advance_def)

lemma advance_Suc: "advance x d (Suc i) = advance (js_add x d) d i"
  unfolding advance_def by (simp only: funpow_Suc_right comp_def)

lemma advance_Num: "advance (Num a) (Num d) i = Num (a + int i * d)"
  by (induction i arbitrary: a) (simp_all add: advance_Suc algebra_simps)

text \<open>The inner loop against the closed form.\<close>

lemma repeat_loop_points:
  "repeat_loop U rep baseUrl template d k time number =
     (map (\<lambda>i. segment_url U rep baseUrl template (advance number (Num 1) i) (advance time d i)) [0..<k],
      advance time d k, advance number (Num 1) k)"
proof (induction k arbitrary: time number)
  case 0
  then show ?case by simp
next
  case (Suc k)
  have "map (\<lambda>i. segment_url U rep baseUrl template (advance number (Num 1) i) (advance time d i)) [0..<Suc k]
      = segment_url U rep baseUrl template number time
        # map (\<lambda>i. segment_url U rep baseUrl template
                  (advance (js_add number (Num 1)) (Num 1) i) (advance (js_add time d) d i)) [0..<k]"
    by (simp add: upt_conv_Cons map_Suc_upt [symmetric] advance_Suc del: upt_Suc)
  then show ?case
    by (simp add: Suc.IH Let_def advance_Suc del: upt_Suc)
qed

lemma timeline_loop_points:
  "timeline_loop U rep baseUrl template entries time number =
     map (\<lambda>(n, t). segment_url U rep baseUrl template n t) (timeline_points time number entries)"
proof (induction entries arbitrary: time number)
  case Nil
  then show ?case by simp
next
  case (Cons s ss)
  show ?case
    by (simp add: Let_def repeat_loop_points Cons.IH spec_count_eq comp_def)
qed

lemma length_timeline_points:
  "length (timeline_points time number entries) = sum_list (map spec_count entries)"
  by (induction entries arbitrary: time number) (simp_all add: Let_def)

lemmas replace_eval =
  replace_all_def replace_all_from.simps replace_padded.simps padded_match_def padStart0_def
  is_digit_def decimal_def digit_val_def replicate_numeral_unfold string_of_eval

lemma scenario4_expansions:
  "replaceVars ''v_$RepresentationID$_$Number%05d$.m4s''
     (segment_vars scenario4_representation (Num 1) (Num 0)) = ''v_v1_00001.m4s''"
  "replaceVars ''v_$RepresentationID$_$Number%05d$.m4s''
     (segment_vars scenario4_representation (Num 2) (Num 100)) = ''v_v1_00002.m4s''"
  "replaceVars ''v_$RepresentationID$_$Number%05d$.m4s''
     (segment_vars scenario4_representation (Num 3) (Num 200)) = ''v_v1_00003.m4s''"
  by (simp_all add: segment_vars_def scenario4_representation_def replace_eval)

text \<open>The four placeholders in one pattern.\<close>

lemma all_placeholders_expansion:
  "replaceVars ''$RepresentationID$/$Bandwidth$/$Time$/$Number$-$Time%06d$.m4s''
     (segment_vars scenario4_representation (Num 2) (Num 100)) = ''v1/800000/100/2-000100.m4s''"
  by (simp add: segment_vars_def scenario4_representation_def replace_eval)

lemma scenario4_points:
  "timeline_points (Num 0) (Num 1) [\<lparr>s_start = None, s_duration = Num 100, s_repeat = Some (Num 2)\<rparr>]
     = [(Num 1, Num 0), (Num 2, Num 100), (Num 3, Num 200)]"
  by (simp add: spec_count_def advance_Num upt_rec)

text \<open>
  The segment plan of \<open>generateSegmentUrls\<close>.  For a segment template with a timeline the
  function produces, entry by entry, \<open>repeat + 1\<close> URLs; the time starts at the entry's
  \<open>t\<close> when it has one and at the running time otherwise and advances by \<open>d\<close> per
  segment, the number runs on from \<open>startNumber\<close>; each URL is what \<open>replaceVars\<close> makes
  of the media pattern with the number and the time of its segment, resolved against
  the base URL.  (Stated for numbers the code holds exactly.)
\<close>

lemma generateSegmentUrls_plan:
  assumes "segmentTemplate rep = Some t" and "timeline t = Some entries"
    and "\<forall>p \<in> set (timeline_points (Num 0) (startNumber t) entries).
           exact_number (fst p) \<and> exact_number (snd p)"
    and "exact_number (rep_bandwidth rep)"
  shows "generateSegmentUrls U rep baseUrl =
           map (\<lambda>(number, time).
                  resolveUrl U (replaceVars (media t) (segment_vars rep number time))
                    (or_default (rep_baseUrl rep) baseUrl))
             (timeline_points (Num 0) (startNumber t) entries)
         \<and> length (generateSegmentUrls U rep baseUrl) = sum_list (map spec_count entries)"
proof -
  have "generateSegmentUrls U rep baseUrl =
          map (\<lambda>(n, time). segment_url U rep baseUrl t n time)
            (timeline_points (Num 0) (startNumber t) entries)"
    using assms(1,2) by (simp add: generateSegmentUrls_def timeline_loop_points)
  then show ?thesis
    by (simp add: segment_url_def length_timeline_points)
qed

text \<open>Scenario 4 of the specification.\<close>

lemma generateSegmentUrls_scenario4:
  "generateSegmentUrls no_url_api scenario4_representation []
     = [''v_v1_00001.m4s'', ''v_v1_00002.m4s'', ''v_v1_00003.m4s'']"
proof -
  have a: "segmentTemplate scenario4_representation = Some scenario4_template"
    by (simp add: scenario4_representation_def)
  have b: "timeline scenario4_template
       = Some [\<lparr>s_start = None, s_duration = Num 100, s_repeat = Some (Num 2)\<rparr>]"
    by (simp add: scenario4_template_def)
  have c: "media scenario4_template = ''v_$RepresentationID$_$Number%05d$.m4s''"
          "startNumber scenario4_template = Num 1"
    by (simp_all add: scenario4_template_def)
  have d: "resolveUrl no_url_api u b = u" for u b
    by (simp add: resolveUrl_def no_url_api_def)
  have e: "\<forall>p \<in> set (timeline_points (Num 0) (startNumber scenario4_template)
                      [\<lparr>s_start = None, s_duration = Num 100, s_repeat = Some (Num 2)\<rparr>]).
             exact_number (fst p) \<and> exact_number (snd p)"
    by (simp add: c scenario4_points del: timeline_points.simps)
  have g: "exact_number (rep_bandwidth scenario4_representation)"
    by (simp add: scenario4_representation_def)
  from generateSegmentUrls_plan [OF a b e g, of no_url_api "[]"]
  show ?thesis
    by (simp add: c d scenario4_points scenario4_expansions del: timeline_points.simps)
qed

text \<open>A replacement text without \<open>$\<close> is inserted as it is.\<close>

lemma get_substitution_plain:
  "CHR ''$'' \<notin> set r \<Longrightarrow> get_substitution matched passed after r = r"
  by (induction matched passed after r rule: get_substitution.induct) auto

subsection \<open>Claim C7\<close>

text \<open>
  \<^bold>\<open>Claim C7\<close>: for a segment template with a timeline, \<open>generateSegmentUrls\<close> produces
  for each \<open>S\<close> entry \<open>repeat + 1\<close> URLs with a running time and a running number, and
  expands \<open>$RepresentationID$\<close>, \<open>$Number$\<close>, \<open>$Time$\<close> and \<open>$Bandwidth$\<close> in the media
  pattern, \<open>$Number%0Nd$\<close> zero-padded.  The plan of segments is as claimed
  (\<open>generateSegmentUrls_plan\<close>), and so is the example of the claim
  (\<open>generateSegmentUrls_scenario4\<close>).  The expansion is not always the one claimed:
  \<open>replaceVars\<close> hands the value of a placeholder to \<open>String.prototype.replace\<close> as the
  replacement text, in which \<open>$&\<close>, \<open>$$\<close>, \<open>$`\<close> and \<open>$'\<close> are patterns.  For the
  representation id \<open>r$&\<close> the placeholder \<open>$RepresentationID$\<close> is replaced by \<open>r\<close>
  followed by the placeholder itself, and not by the id; the width-formatted placeholder
  of the same function, whose replacement is computed by a function, does insert this
  id as it is.
\<close>

theorem representation_id_pattern_not_literal:
  "rep_id dollar_id_representation = ''r$&''
   \<and> map_option media (segmentTemplate dollar_id_representation)
       = Some ''v_$RepresentationID$_$Number%05d$.m4s''
   \<and> generateSegmentUrls no_url_api dollar_id_representation []
       = [''v_r$RepresentationID$_00001.m4s'', ''v_r$RepresentationID$_00002.m4s'',
          ''v_r$RepresentationID$_00003.m4s'']
   \<and> generateSegmentUrls no_url_api dollar_id_representation []
       \<noteq> [''v_r$&_00001.m4s'', ''v_r$&_00002.m4s'', ''v_r$&_00003.m4s'']
   \<and> map_option media (segmentTemplate formatted_id_representation)
       = Some ''v_$RepresentationID%01d$_$Number%05d$.m4s''
   \<and> generateSegmentUrls no_url_api formatted_id_representation []
       = [''v_r$&_00001.m4s'', ''v_r$&_00002.m4s'', ''v_r$&_00003.m4s'']"
proof -
  have d: "resolveUrl no_url_api u b = u" for u b
    by (simp add: resolveUrl_def no_url_api_def)
  have p: "timeline_points (Num 0) (Num 1)
             [\<lparr>s_start = None, s_duration = Num 100, s_repeat = Some (Num 2)\<rparr>]
           = [(Num 1, Num 0), (Num 2, Num 100), (Num 3, Num 200)]"
    by (rule scenario4_points)
  have x: "replaceVars ''v_$RepresentationID$_$Number%05d$.m4s''
             (segment_vars dollar_id_representation (Num 1) (Num 0)) = ''v_r$RepresentationID$_00001.m4s''"
          "replaceVars ''v_$RepresentationID$_$Number%05d$.m4s''
             (segment_vars dollar_id_representation (Num 2) (Num 100)) = ''v_r$RepresentationID$_00002.m4s''"
          "replaceVars ''v_$RepresentationID$_$Number%05d$.m4s''
             (segment_vars dollar_id_representation (Num 3) (Num 200)) = ''v_r$RepresentationID$_00003.m4s''"
    by (simp_all add: segment_vars_def dollar_id_representation_def scenario4_representation_def
        replace_eval)
  have y: "replaceVars ''v_$RepresentationID%01d$_$Number%05d$.m4s''
             (segment_vars formatted_id_representation (Num 1) (Num 0)) = ''v_r$&_00001.m4s''"
          "replaceVars ''v_$RepresentationID%01d$_$Number%05d$.m4s''
             (segment_vars formatted_id_representation (Num 2) (Num 100)) = ''v_r$&_00002.m4s''"
          "replaceVars ''v_$RepresentationID%01d$_$Number%05d$.m4s''
             (segment_vars formatted_id_representation (Num 3) (Num 200)) = ''v_r$&_00003.m4s''"
    by (simp_all add: segment_vars_def formatted_id_representation_def dollar_id_representation_def
        scenario4_representation_def replace_eval)
  have f: "segmentTemplate dollar_id_representation = Some scenario4_template"
          "rep_baseUrl dollar_id_representation = None"
          "segmentTemplate formatted_id_representation
             = Some (scenario4_template\<lparr>media := ''v_$RepresentationID%01d$_$Number%05d$.m4s''\<rparr>)"
          "rep_baseUrl formatted_id_representation = None"
    by (simp_all add: formatted_id_representation_def dollar_id_representation_def
        scenario4_representation_def)
  have c: "media scenario4_template = ''v_$RepresentationID$_$Number%05d$.m4s''"
          "startNumber scenario4_template = Num 1"
          "timeline scenario4_template
             = Some [\<lparr>s_start = None, s_duration = Num 100, s_repeat = Some (Num 2)\<rparr>]"
    by (simp_all add: scenario4_template_def)
  have 1: "generateSegmentUrls no_url_api dollar_id_representation []
       = [''v_r$RepresentationID$_00001.m4s'', ''v_r$RepresentationID$_00002.m4s'',
          ''v_r$RepresentationID$_00003.m4s'']"
    by (simp add: generateSegmentUrls_def f c timeline_loop_points segment_url_def d p x
        del: timeline_points.simps)
  have 2: "generateSegmentUrls no_url_api formatted_id_representation []
       = [''v_r$&_00001.m4s'', ''v_r$&_00002.m4s'', ''v_r$&_00003.m4s'']"
    by (simp add: generateSegmentUrls_def f c timeline_loop_points segment_url_def d p y
        del: timeline_points.simps)
  have i: "rep_id dollar_id_representation = ''r$&''"
    by (simp add: dollar_id_representation_def)
  show ?thesis
    unfolding 1 2 by (simp add: i f c)
qed

text \<open>The representations of a parsed adaptation set are in descending order of bandwidth
  for video and in ascending order otherwise, as long as every bandwidth is a number.\<close>

lemma parseAdaptationSet_sorted:
  assumes "\<forall>r \<in> set (representations (parseAdaptationSet U element baseUrl)). rep_bandwidth r \<noteq> NaN"
  shows "if contentType (parseAdaptationSet U element baseUrl) = Video
         then sorted_wrt (\<lambda>a b. js_ge (rep_bandwidth a) (rep_bandwidth b))
                (representations (parseAdaptationSet U element baseUrl))
         else sorted_wrt (\<lambda>a b. js_le (rep_bandwidth a) (rep_bandwidth b))
                (representations (parseAdaptationSet U element baseUrl))"
proof (cases "contentType (parseAdaptationSet U element baseUrl) = Video")
  case True
  then obtain reps where r: "representations (parseAdaptationSet U element baseUrl)
      = js_sort representation_descending reps"
    by (auto simp: parseAdaptationSet_def Let_def split: if_splits)
  have "\<forall>x \<in> set reps. rep_bandwidth x \<noteq> NaN"
    using assms unfolding r by simp
  then have "sorted_wrt (\<lambda>a b. js_ge (rep_bandwidth a) (rep_bandwidth b))
               (js_sort representation_descending reps)"
    by (rule js_sort_descending [rotated]) (simp add: representation_descending_def)
  then show ?thesis using True r by simp
next
  case False
  then obtain reps where r: "representations (parseAdaptationSet U element baseUrl)
      = js_sort representation_ascending reps"
    by (auto simp: parseAdaptationSet_def Let_def split: if_splits)
  have "\<forall>x \<in> set reps. rep_bandwidth x \<noteq> NaN"
    using assms unfolding r by simp
  then have "sorted_wrt (\<lambda>a b. js_le (rep_bandwidth a) (rep_bandwidth b))
               (js_sort representation_ascending reps)"
    by (rule js_sort_ascending [rotated]) (simp add: representation_ascending_def)
  then show ?thesis using False r by simp
qed

lemma malformed_set_is_video:
  "contentType (parseAdaptationSet no_url_api malformed_bandwidth_set ''https://cdn.example/a.mpd'') = Video"
  by (simp add: parseAdaptationSet_def malformed_bandwidth_set_def includesStr_def
      sublist_Cons_right or_default_def Let_def)

lemma malformed_set_representations:
  "querySelectorAll malformed_bandwidth_set ''Representation'' =
     [Element ''Representation'' [(''id'', ''a''), (''bandwidth'', ''5000000'')] [],
      Element ''Representation'' [(''id'', ''b''), (''bandwidth'', ''high'')] [],
      Element ''Representation'' [(''id'', ''c''), (''bandwidth'', ''7000000'')] []]"
  by (simp add: querySelectorAll_def malformed_bandwidth_set_def)

lemma parseRepresentation_bandwidth:
  "rep_bandwidth (parseRepresentation U (Element ''Representation'' [(''id'', i), (''bandwidth'', w)] []) base t)
     = parseInt10 (or_default (Some w) ''0'')"
  by (simp add: parseRepresentation_def)

lemma malformed_master_bandwidths:
  "map bandwidth (variants (parseMasterPlaylist no_url_api
       (manifest_lines malformed_bandwidth_master) ''https://cdn.example/master.m3u8''))
     = [Num 5000000, NaN, Num 7000000]"
  by (simp add: parseMasterPlaylist_def lines_malformed_bandwidth_master
      master_takes_next_def master_body_def master_drm_line_def includesStr_def
      sublist_Cons_right startsWith_def make_variant_def attr_eval or_default_def nonempty_def
      int_eval js_sort_def variant_compare_def Let_def)

lemma malformed_set_bandwidths:
  "map rep_bandwidth
     (representations (parseAdaptationSet no_url_api malformed_bandwidth_set ''https://cdn.example/a.mpd''))
     = [Num 5000000, NaN, Num 7000000]"
proof -
  have "representations (parseAdaptationSet no_url_api malformed_bandwidth_set ''https://cdn.example/a.mpd'')
     = js_sort representation_descending
         (map (\<lambda>rep. parseRepresentation no_url_api rep ''https://cdn.example/a.mpd''
                  (parseSegmentTemplate (querySelector_child malformed_bandwidth_set ''SegmentTemplate'')))
            (querySelectorAll malformed_bandwidth_set ''Representation''))"
    using malformed_set_is_video by (simp add: parseAdaptationSet_def Let_def split: if_splits)
  then show ?thesis
    by (simp add: malformed_set_representations js_sort_def representation_descending_def
        parseRepresentation_bandwidth or_default_def int_eval)
qed

text \<open>
  \<^bold>\<open>Claim C8\<close>: the variants of every parsed master playlist are in descending order of
  bandwidth, and the representations of every parsed adaptation set are in descending
  order for video and ascending order otherwise.  The code sorts with the comparators
  \<open>b.bandwidth - a.bandwidth\<close> and \<open>a.bandwidth - b.bandwidth\<close>, and a bandwidth attribute
  that is not a number is read as \<open>NaN\<close> (only a missing one is read as 0).  With such a
  variant or representation the comparator returns \<open>NaN\<close> and the result is not sorted:
  bandwidths 5000000, \<open>high\<close>, 7000000 stay in that order, 5000000 before 7000000.
  (\<open>parseMasterPlaylist_sorted\<close> and \<open>parseAdaptationSet_sorted\<close> show the claimed order
  whenever every bandwidth is a number.)
\<close>

theorem malformed_bandwidth_not_sorted:
  "parseHLSManifest no_url_api malformed_bandwidth_master ''https://cdn.example/master.m3u8''
     = Inr (Master (parseMasterPlaylist no_url_api (manifest_lines malformed_bandwidth_master)
                      ''https://cdn.example/master.m3u8''))
   \<and> map bandwidth (variants (parseMasterPlaylist no_url_api
                        (manifest_lines malformed_bandwidth_master) ''https://cdn.example/master.m3u8''))
       = [Num 5000000, NaN, Num 7000000]
   \<and> \<not> sorted_wrt (\<lambda>a b. js_ge (bandwidth a) (bandwidth b))
         (variants (parseMasterPlaylist no_url_api
                      (manifest_lines malformed_bandwidth_master) ''https://cdn.example/master.m3u8''))
   \<and> contentType (parseAdaptationSet no_url_api malformed_bandwidth_set ''https://cdn.example/a.mpd'')
       = Video
   \<and> map rep_bandwidth
         (representations (parseAdaptationSet no_url_api malformed_bandwidth_set ''https://cdn.example/a.mpd''))
       = [Num 5000000, NaN, Num 7000000]
   \<and> \<not> sorted_wrt (\<lambda>a b. js_ge (rep_bandwidth a) (rep_bandwidth b))
         (representations (parseAdaptationSet no_url_api malformed_bandwidth_set ''https://cdn.example/a.mpd''))"
proof -
  let ?vs = "variants (parseMasterPlaylist no_url_api
                (manifest_lines malformed_bandwidth_master) ''https://cdn.example/master.m3u8'')"
  let ?rs = "representations (parseAdaptationSet no_url_api malformed_bandwidth_set ''https://cdn.example/a.mpd'')"
  note v = malformed_master_bandwidths
  note r = malformed_set_bandwidths
  note c = malformed_set_is_video
  have nv: "\<not> sorted_wrt (\<lambda>a b. js_ge (bandwidth a) (bandwidth b)) ?vs"
  proof
    assume "sorted_wrt (\<lambda>a b. js_ge (bandwidth a) (bandwidth b)) ?vs"
    then have "sorted_wrt js_ge (map bandwidth ?vs)"
      by (simp add: sorted_wrt_map)
    then show False by (simp add: v)
  qed
  have nr: "\<not> sorted_wrt (\<lambda>a b. js_ge (rep_bandwidth a) (rep_bandwidth b)) ?rs"
  proof
    assume "sorted_wrt (\<lambda>a b. js_ge (rep_bandwidth a) (rep_bandwidth b)) ?rs"
    then have "sorted_wrt js_ge (map rep_bandwidth ?rs)"
      by (simp add: sorted_wrt_map)
    then show False by (simp add: r)
  qed
  show ?thesis
    using v r c nv nr by (simp add: parse_malformed_bandwidth_master)
qed

section \<open>Properties of the downloader\<close>

subsection \<open>\<open>cancelDownload\<close>\<close>

lemma remove1_absent: "x \<notin> set xs \<Longrightarrow> remove1 x xs = xs"
  by (rule remove1_idem)

lemma cancelDownload_unknown:
  assumes "inv_queue d" and "jobs d jobId = None"
  shows "cancelDownload d jobId = d"
proof -
  have c: "abortControllers d jobId = None"
    using assms by (auto simp: inv_queue_def)
  have q: "jobId \<notin> set (queue d)"
    using assms by (auto simp: inv_queue_def)
  show ?thesis
    using assms(2) c q by (simp add: cancelDownload_def remove1_idem)
qed

lemma cancelDownload_twice:
  assumes "distinct (queue d)"
  shows "cancelDownload (cancelDownload d jobId) jobId = cancelDownload d jobId"
proof -
  let ?d = "cancelDownload d jobId"
  have c: "abortControllers ?d jobId = None"
    by (simp add: cancelDownload_def Let_def split: option.splits)
  have q: "jobId \<notin> set (queue ?d)"
    using assms by (simp add: cancelDownload_def Let_def split: option.splits)
  have j: "jobs ?d jobId = None \<or> (\<exists>job. jobs ?d jobId = Some job \<and> status job = Cancelled)"
    by (auto simp: cancelDownload_def Let_def split: option.splits)
  show ?thesis
  proof (cases "jobs ?d jobId")
    case None
    then show ?thesis
      using c q by (simp add: cancelDownload_def [of ?d] remove1_idem)
  next
    case (Some job)
    then have "status job = Cancelled" using j by auto
    then have "job\<lparr>status := Cancelled\<rparr> = job" by simp
    then have "(jobs ?d)(jobId \<mapsto> job\<lparr>status := Cancelled\<rparr>) = jobs ?d"
      using Some by (simp add: fun_upd_idem)
    then show ?thesis
      using c q Some by (simp add: cancelDownload_def [of ?d] remove1_idem)
  qed
qed

lemma cancelDownload_pending:
  assumes "distinct (queue d)" and "jobs d jobId = Some job"
  shows "jobId \<notin> set (queue (cancelDownload d jobId))
         \<and> job_status (cancelDownload d jobId) jobId = Some Cancelled"
  using assms
  by (simp add: cancelDownload_def job_status_def Let_def split: option.splits)

lemma cancelDownload_logs [simp]:
  "emitted (cancelDownload d jobId) = emitted d"
  "gotCalls (cancelDownload d jobId) = gotCalls d"
  "activeDownloads (cancelDownload d jobId) = activeDownloads d"
  by (simp_all add: cancelDownload_def Let_def split: option.splits)

subsection \<open>The queue invariant\<close>

lemma processQueue_preserves:
  assumes "P d"
    and "\<And>d. P d \<Longrightarrow> queue d \<noteq> [] \<Longrightarrow>
           P (fst (begin_download (d\<lparr>queue := tl (queue d)\<rparr>) (hd (queue d))))"
  shows "P (processQueue d)"
  using assms(1)
proof (induction d rule: processQueue.induct)
  case (1 d)
  show ?case
  proof (cases "activeDownloads d < maxConcurrent d \<and> queue d \<noteq> []")
    case True
    then have "P (fst (begin_download (d\<lparr>queue := tl (queue d)\<rparr>) (hd (queue d))))"
      using assms(2) "1.prems" by simp
    then show ?thesis
      using True "1.IH" by (subst processQueue.simps) simp
  next
    case False
    then show ?thesis
      using "1.prems" by (subst processQueue.simps) auto
  qed
qed

lemma conclude_tables:
  "dom (jobs (conclude d j tid e)) = dom (jobs d)"
  "abortControllers (conclude d j tid e) = (abortControllers d)(j := None)"
  by (auto simp: conclude_def Let_def split: option.splits ending.splits if_splits)

lemma begin_download_tables:
  "dom (jobs (fst (begin_download d j))) = dom (jobs d)"
  "dom (abortControllers (fst (begin_download d j))) \<subseteq> dom (abortControllers d) \<union> ({j} \<inter> dom (jobs d))"
proof -
  show "dom (jobs (fst (begin_download d j))) = dom (jobs d)"
    by (auto simp: begin_download_def Let_def conclude_tables
        split: option.splits StreamType.splits if_splits)
  show "dom (abortControllers (fst (begin_download d j))) \<subseteq> dom (abortControllers d) \<union> ({j} \<inter> dom (jobs d))"
    by (auto simp: begin_download_def Let_def conclude_tables
        split: option.splits StreamType.splits if_splits)
qed

lemma inv_queue_pop_begin:
  assumes "inv_queue d" and "queue d \<noteq> []"
  shows "inv_queue (fst (begin_download (d\<lparr>queue := tl (queue d)\<rparr>) (hd (queue d))))"
proof -
  let ?d0 = "d\<lparr>queue := tl (queue d)\<rparr>"
  let ?d' = "fst (begin_download ?d0 (hd (queue d)))"
  have q: "queue ?d' = tl (queue d)" by simp
  have j: "dom (jobs ?d') = dom (jobs d)"
    by (simp add: begin_download_tables)
  have c: "dom (abortControllers ?d') \<subseteq> dom (abortControllers d) \<union> dom (jobs d)"
    using begin_download_tables(2) [of ?d0 "hd (queue d)"] by auto
  have c': "dom (abortControllers ?d') \<subseteq> dom (jobs d)"
    using c assms(1) unfolding inv_queue_def by blast
  have "distinct (tl (queue d))" "set (tl (queue d)) \<subseteq> dom (jobs d)"
    using assms by (auto simp: inv_queue_def distinct_tl dest: list.set_sel(2))
  then show ?thesis
    using c' unfolding inv_queue_def q j by simp
qed

lemma inv_queue_processQueue: "inv_queue d \<Longrightarrow> inv_queue (processQueue d)"
  by (rule processQueue_preserves [where P = inv_queue]) (auto intro: inv_queue_pop_begin)

lemma inv_queue_startDownload:
  assumes "inv_queue d" and "jobs d newId = None"
  shows "inv_queue (startDownload d newId strm quality)"
proof -
  have "newId \<notin> set (queue d)"
    using assms by (auto simp: inv_queue_def)
  then show ?thesis
    unfolding startDownload_def Let_def
    using assms by (intro inv_queue_processQueue) (auto simp: inv_queue_def)
qed

lemma inv_queue_cancelDownload: "inv_queue d \<Longrightarrow> inv_queue (cancelDownload d jobId)"
  by (auto simp: inv_queue_def cancelDownload_def Let_def split: option.splits if_splits)

lemma inv_queue_conclude: "inv_queue d \<Longrightarrow> inv_queue (conclude d j tid e)"
  unfolding inv_queue_def by (auto simp: conclude_tables)

lemma inv_queue_resume: "inv_queue d \<Longrightarrow> inv_queue (resume U D d tid out)"
proof -
  assume i: "inv_queue d"
  have u: "inv_queue (d\<lparr>jobs := (jobs d)(j \<mapsto> job'), gotCalls := r, emitted := e\<rparr>)"
    if "jobs d j = Some job" for j job job' r e
    using i that by (auto simp: inv_queue_def)
  have w: "inv_queue (d'\<lparr>tasks := ts\<rparr>)" if "inv_queue d'" for d' ts
    using that by (simp add: inv_queue_def)
  show ?thesis
    using i
    by (auto simp: resume_def Let_def finish_def
        intro!: inv_queue_processQueue inv_queue_conclude u w
        split: option.splits continuation.splits)
qed

lemma reachable_inv_queue: "reachable U D d \<Longrightarrow> inv_queue d"
proof (induction rule: reachable.induct)
  case (created path maxc ffmpeg)
  then show ?case by (simp add: inv_queue_def new_downloader_def)
next
  case (started d newId strm quality)
  then show ?case by (simp add: inv_queue_startDownload)
next
  case (cancelled d jobId)
  then show ?case by (simp add: inv_queue_cancelDownload)
next
  case (resumed d tid out)
  then show ?case by (simp add: inv_queue_resume)
next
  case (path_set d path)
  then show ?case by (simp add: inv_queue_def setDownloadPath_def)
qed

subsection \<open>A job waits only while no slot is free\<close>

lemma processQueue_exit: "inv_slots (processQueue d)"
proof (induction d rule: processQueue.induct)
  case (1 d)
  show ?case
  proof (cases "activeDownloads d < maxConcurrent d \<and> queue d \<noteq> []")
    case True
    then show ?thesis
      using "1.IH" by (subst processQueue.simps) simp
  next
    case False
    then show ?thesis
      by (subst processQueue.simps) (auto simp: inv_slots_def)
  qed
qed

lemma cancelDownload_slots:
  "maxConcurrent (cancelDownload d jobId) = maxConcurrent d"
  "queue (cancelDownload d jobId) = remove1 jobId (queue d)"
  by (simp_all add: cancelDownload_def Let_def split: option.splits)

lemma inv_slots_resume: "inv_slots d \<Longrightarrow> inv_slots (resume U D d tid out)"
  by (auto simp: resume_def Let_def finish_def processQueue_exit inv_slots_def [of "_\<lparr>tasks := _\<rparr>"]
      inv_slots_def [of d] split: option.splits continuation.splits)

lemma reachable_inv_slots: "reachable U D d \<Longrightarrow> inv_slots d"
proof (induction rule: reachable.induct)
  case (created path maxc ffmpeg)
  then show ?case by (simp add: inv_slots_def new_downloader_def)
next
  case (started d newId strm quality)
  then show ?case by (simp add: startDownload_def Let_def processQueue_exit)
next
  case (cancelled d jobId)
  then show ?case by (auto simp: inv_slots_def cancelDownload_slots)
next
  case (resumed d tid out)
  then show ?case by (simp add: inv_slots_resume)
next
  case (path_set d path)
  then show ?case by (simp add: inv_slots_def setDownloadPath_def)
qed

subsection \<open>Evaluation of the scenario runs\<close>

lemma processQueue_stop:
  "\<not> (activeDownloads d < maxConcurrent d \<and> queue d \<noteq> []) \<Longrightarrow> processQueue d = d"
  by (subst processQueue.simps) auto

lemma processQueue_go:
  "activeDownloads d < maxConcurrent d \<Longrightarrow> queue d = j # q \<Longrightarrow>
   processQueue d = processQueue (fst (begin_download (d\<lparr>queue := q\<rparr>) j))"
  by (subst processQueue.simps) simp

lemma run_started_eq:
  "run_started =
     run_state job1_downloading
       [0 \<mapsto> \<lparr>t_job = ''job-1'', t_aborted = False, t_pc = HlsManifest\<rparr>] [''job-1'' \<mapsto> 0] 1 []
       [(''job-1'', ''https://cdn.example/v.m3u8'')]"
  by (simp add: run_started_def startDownload_def fresh_downloader_def new_downloader_def
      processQueue_go processQueue_stop begin_download_def drm_stream_def Let_def
      run_state_def job1_downloading_def)

lemma aes128_segments:
  "map seg_uri (segments (parseMediaPlaylist U (manifest_lines aes128_media_playlist) b))
     = [''https://cdn.example/seg0.ts'']"
  by (simp add: parseMediaPlaylist_def lines_aes128_media_playlist startsWith_def Let_def
      resolveUrl_def)

lemma run_playlist_requested_eq:
  "run_playlist_requested =
     run_state job1_downloading
       [0 \<mapsto> \<lparr>t_job = ''job-1'', t_aborted = False,
               t_pc = HlsPlaylist ''https://cdn.example/v.m3u8''\<rparr>] [''job-1'' \<mapsto> 0] 1 []
       [(''job-1'', ''https://cdn.example/v.m3u8''), (''job-1'', ''https://cdn.example/v.m3u8'')]"
  by (simp add: run_playlist_requested_def run_started_eq resume_def run_state_def
      download_step_def parse_aes128_media_playlist step_to_def job1_downloading_def
      drm_stream_def Let_def)

lemma run_mkdir_eq:
  "run_mkdir =
     run_state job1_downloading
       [0 \<mapsto> \<lparr>t_job = ''job-1'', t_aborted = False,
               t_pc = HlsMkdir [''https://cdn.example/seg0.ts''] ''/downloads/.aigrabber-job-1''\<rparr>]
       [''job-1'' \<mapsto> 0] 1 []
       [(''job-1'', ''https://cdn.example/v.m3u8''), (''job-1'', ''https://cdn.example/v.m3u8'')]"
  by (simp add: run_mkdir_def run_playlist_requested_eq resume_def run_state_def
      download_step_def parse_aes128_media_playlist aes128_segments step_to_def
      job1_downloading_def temp_dir_def path_join_def Let_def)

lemma run_segment_requested_eq:
  "run_segment_requested =
     run_state job1_downloading
       [0 \<mapsto> \<lparr>t_job = ''job-1'', t_aborted = False,
               t_pc = HlsSegment [''https://cdn.example/seg0.ts''] ''/downloads/.aigrabber-job-1'' 0 [] 0\<rparr>]
       [''job-1'' \<mapsto> 0] 1 []
       [(''job-1'', ''https://cdn.example/v.m3u8''), (''job-1'', ''https://cdn.example/v.m3u8''),
        (''job-1'', ''https://cdn.example/seg0.ts'')]"
  by (simp add: run_segment_requested_def run_mkdir_eq resume_def run_state_def
      download_step_def hls_loop_def step_to_def job1_downloading_def Let_def)

lemma run_segment_failed_eq:
  "run_segment_failed =
     run_state (job1_downloading\<lparr>status := Failed, job_error := Some ''connect ECONNREFUSED''\<rparr>)
       Map.empty Map.empty 0 [OnError ''job-1'' ''connect ECONNREFUSED'']
       [(''job-1'', ''https://cdn.example/v.m3u8''), (''job-1'', ''https://cdn.example/v.m3u8''),
        (''job-1'', ''https://cdn.example/seg0.ts'')]"
  by (simp add: run_segment_failed_def run_segment_requested_eq resume_def run_state_def
      download_step_def step_to_def finish_def conclude_def processQueue_stop
      transport_error_def job1_downloading_def Let_def)

lemma run_cancelled_eq:
  "run_cancelled =
     run_state (job1_downloading\<lparr>status := Cancelled\<rparr>)
       [0 \<mapsto> \<lparr>t_job = ''job-1'', t_aborted = True,
               t_pc = HlsSegment [''https://cdn.example/seg0.ts''] ''/downloads/.aigrabber-job-1'' 0 [] 0\<rparr>]
       Map.empty 1 []
       [(''job-1'', ''https://cdn.example/v.m3u8''), (''job-1'', ''https://cdn.example/v.m3u8''),
        (''job-1'', ''https://cdn.example/seg0.ts'')]"
  by (simp add: run_cancelled_def run_segment_requested_eq cancelDownload_def run_state_def
      job1_downloading_def Let_def)

lemma run_cancel_observed_eq:
  "run_cancel_observed =
     run_state (job1_downloading\<lparr>status := Cancelled\<rparr>) Map.empty Map.empty 0 []
       [(''job-1'', ''https://cdn.example/v.m3u8''), (''job-1'', ''https://cdn.example/v.m3u8''),
        (''job-1'', ''https://cdn.example/seg0.ts'')]"
  by (simp add: run_cancel_observed_def run_cancelled_eq resume_def run_state_def
      download_step_def step_to_def finish_def conclude_def processQueue_stop
      abort_error_def job1_downloading_def Let_def)

lemma reachable_run_started: "reachable no_url_api no_dom_api run_started"
  unfolding run_started_def fresh_downloader_def
  by (rule reachable.started [OF reachable.created]) (simp add: new_downloader_def)

lemma reachable_run_segment_requested: "reachable no_url_api no_dom_api run_segment_requested"
  unfolding run_segment_requested_def run_mkdir_def run_playlist_requested_def
  by (intro reachable.resumed reachable_run_started)

lemma reachable_busy_downloader: "reachable no_url_api no_dom_api busy_downloader"
  unfolding busy_downloader_def
  by (rule reachable.started [OF reachable.created]) (simp add: new_downloader_def)

lemma busy_downloader_eq:
  "busy_downloader =
     (new_downloader ''/downloads'' 0 True)
       \<lparr>jobs := [''job-1'' \<mapsto> job1_downloading\<lparr>status := Pending\<rparr>], queue := [''job-1'']\<rparr>"
  by (simp add: busy_downloader_def startDownload_def new_downloader_def processQueue_stop
      job1_downloading_def Let_def)

subsection \<open>Claims C9 and C10\<close>

text \<open>
  \<^bold>\<open>Claim C9\<close>: in every state the downloader can reach, calling \<open>cancelDownload\<close> twice
  in succession leaves it in the state the first call left it in (job table, queue,
  controllers, tasks and logs alike), and for a job that is still pending one call takes
  the job out of the queue and marks it cancelled.
\<close>

theorem cancelDownload_idempotent:
  assumes "reachable U D d"
  shows "cancelDownload (cancelDownload d jobId) jobId = cancelDownload d jobId
         \<and> (job_status d jobId = Some Pending \<longrightarrow>
              jobId \<notin> set (queue (cancelDownload d jobId))
              \<and> job_status (cancelDownload d jobId) jobId = Some Cancelled)"
proof -
  have q: "distinct (queue d)"
    using reachable_inv_queue [OF assms] by (simp add: inv_queue_def)
  have "job_status d jobId = Some Pending \<longrightarrow>
          jobId \<notin> set (queue (cancelDownload d jobId))
          \<and> job_status (cancelDownload d jobId) jobId = Some Cancelled"
    using cancelDownload_pending [OF q] by (auto simp: job_status_def)
  then show ?thesis
    using cancelDownload_twice [OF q] by simp
qed

theorem cancelDownload_idempotent_witness:
  "job_status busy_downloader ''job-1'' = Some Pending
   \<and> queue busy_downloader = [''job-1'']
   \<and> cancelDownload (cancelDownload busy_downloader ''job-1'') ''job-1''
       = cancelDownload busy_downloader ''job-1''
   \<and> queue (cancelDownload busy_downloader ''job-1'') = []
   \<and> job_status (cancelDownload busy_downloader ''job-1'') ''job-1'' = Some Cancelled"
proof -
  have a: "job_status busy_downloader ''job-1'' = Some Pending"
    by (simp add: busy_downloader_eq job_status_def)
  have b: "queue busy_downloader = [''job-1'']"
    by (simp add: busy_downloader_eq)
  have c: "queue (cancelDownload busy_downloader ''job-1'') = []"
    by (simp add: busy_downloader_eq cancelDownload_def new_downloader_def Let_def)
  from cancelDownload_idempotent [OF reachable_busy_downloader, of "''job-1''"] a b c
  show ?thesis by simp
qed

text \<open>
  \<^bold>\<open>Claim C10\<close>: in every state the downloader can reach, \<open>cancelDownload\<close> of an id that
  is not in the job table changes nothing: the state after the call is the state before
  it, so the job table, the queue, the controllers and the count of active downloads
  are as they were.  (\<open>cancelDownload\<close> has no operation that can throw; the model is a
  total function without an error result.)
\<close>

theorem cancelDownload_unknown_job:
  assumes "reachable U D d" and "jobs d jobId = None"
  shows "cancelDownload d jobId = d"
  using cancelDownload_unknown [OF reachable_inv_queue [OF assms(1)] assms(2)] .

theorem cancelDownload_unknown_job_witness:
  "jobs run_segment_requested ''job-2'' = None
   \<and> jobs run_segment_requested ''job-1'' = Some job1_downloading
   \<and> cancelDownload run_segment_requested ''job-2'' = run_segment_requested"
proof -
  have a: "jobs run_segment_requested ''job-2'' = None"
    by (simp add: run_segment_requested_eq run_state_def)
  have b: "jobs run_segment_requested ''job-1'' = Some job1_downloading"
    by (simp add: run_segment_requested_eq run_state_def)
  from cancelDownload_unknown_job [OF reachable_run_segment_requested a] a b
  show ?thesis by simp
qed

subsection \<open>Claim C1\<close>

lemma waiting_downloader_eq:
  "waiting_downloader =
     \<lparr>downloadPath = ''/downloads'', maxConcurrent = 1, ffmpegAvailable = True,
      jobs = [''job-1'' \<mapsto> job1_downloading,
              ''job-2'' \<mapsto> job1_downloading\<lparr>job_id := ''job-2'', status := Pending\<rparr>],
      activeDownloads = 1, queue = [''job-2''],
      abortControllers = [''job-1'' \<mapsto> 0],
      tasks = [0 \<mapsto> \<lparr>t_job = ''job-1'', t_aborted = False, t_pc = HlsManifest\<rparr>],
      nextTask = 1, emitted = [], gotCalls = [(''job-1'', ''https://cdn.example/v.m3u8'')]\<rparr>"
  by (simp add: waiting_downloader_def startDownload_def new_downloader_def
      processQueue_go processQueue_stop begin_download_def drm_stream_def Let_def
      job1_downloading_def)

lemma reachable_waiting_downloader: "reachable no_url_api no_dom_api waiting_downloader"
proof -
  let ?d1 = "startDownload (new_downloader ''/downloads'' 1 True) ''job-1'' drm_stream some_quality"
  have 1: "reachable no_url_api no_dom_api ?d1"
    by (rule reachable.started [OF reachable.created]) (simp add: new_downloader_def)
  have "jobs ?d1 ''job-2'' = None"
    by (simp add: startDownload_def new_downloader_def processQueue_go processQueue_stop
        begin_download_def drm_stream_def Let_def)
  then show ?thesis
    unfolding waiting_downloader_def by (rule reachable.started [OF 1])
qed

lemma reachable_fresh_downloader: "reachable no_url_api no_dom_api fresh_downloader"
  unfolding fresh_downloader_def by (rule reachable.created)

text \<open>
  \<^bold>\<open>Claim C1\<close>, as stated: for a stream whose protection is marked DRM, \<open>startDownload\<close>
  leaves the job failed with an explanatory error, and no network fetch is ever issued
  for it.  It fails: \<open>startDownload\<close> does not read the \<open>protection\<close> field.  On a
  downloader with a free slot the job of a DRM-marked HLS stream is \<open>downloading\<close> when
  \<open>startDownload\<close> returns, nothing has been reported for it, and \<open>got\<close> has been called
  for its manifest.
\<close>

theorem drm_stream_download_counterexample:
  "protection drm_stream = ProtDrm
   \<and> job_status run_started ''job-1'' = Some Downloading
   \<and> job_got_calls run_started ''job-1'' = [''https://cdn.example/v.m3u8'']
   \<and> emitted run_started = []"
  by (simp add: run_started_eq run_state_def job_status_def job_got_calls_def
      job1_downloading_def drm_stream_def)

text \<open>
  \<^bold>\<open>Claim C1\<close>, amended: \<open>startDownload\<close> treats a stream marked DRM like any other
  stream; what it does depends on the free slots and on the stream type only.  In every
  state the downloader can reach, for every stream, whatever its \<open>protection\<close>, and every
  fresh job id: when a slot is free and the stream type is \<open>hls\<close>, \<open>dash\<close> or \<open>direct\<close>,
  the job is \<open>downloading\<close> when \<open>startDownload\<close> returns, \<open>got\<close> has been called once
  more, for the stream URL, and no callback has been called; when a slot is free and the
  type is another one, the job is \<open>failed\<close> with the error
  \<open>Unsupported stream type: <type>\<close>, reported through \<open>onError\<close>, and \<open>got\<close> has not been
  called; when no slot is free, the job is \<open>pending\<close> at the end of the queue, behind the
  jobs that waited before, and neither \<open>got\<close> nor a callback has been called.
\<close>

theorem startDownload_ignores_protection:
  assumes "reachable U D d" and "jobs d newId = None"
  shows "(activeDownloads d < maxConcurrent d \<and> s_type strm \<in> {Hls, Dash, Direct} \<longrightarrow>
            job_status (startDownload d newId strm quality) newId = Some Downloading
            \<and> gotCalls (startDownload d newId strm quality) = gotCalls d @ [(newId, s_url strm)]
            \<and> emitted (startDownload d newId strm quality) = emitted d
            \<and> queue (startDownload d newId strm quality) = [])
       \<and> (activeDownloads d < maxConcurrent d \<and> s_type strm \<notin> {Hls, Dash, Direct} \<longrightarrow>
            job_status (startDownload d newId strm quality) newId = Some Failed
            \<and> map_option job_error (jobs (startDownload d newId strm quality) newId)
                = Some (Some (''Unsupported stream type: '' @ stream_type_text (s_type strm)))
            \<and> gotCalls (startDownload d newId strm quality) = gotCalls d
            \<and> emitted (startDownload d newId strm quality)
                = emitted d @ [OnError newId
                                 (''Unsupported stream type: '' @ stream_type_text (s_type strm))]
            \<and> queue (startDownload d newId strm quality) = [])
       \<and> (\<not> activeDownloads d < maxConcurrent d \<longrightarrow>
            job_status (startDownload d newId strm quality) newId = Some Pending
            \<and> queue (startDownload d newId strm quality) = queue d @ [newId]
            \<and> gotCalls (startDownload d newId strm quality) = gotCalls d
            \<and> emitted (startDownload d newId strm quality) = emitted d)"
proof -
  let ?job = "\<lparr>job_id = newId, stream = strm, selectedQuality = quality, status = Pending,
               progress = \<lparr>downloadedBytes = 0, currentSegment = None, totalSegments = None\<rparr>,
               outputPath = None, job_error = None\<rparr>"
  let ?d2 = "d\<lparr>jobs := (jobs d)(newId \<mapsto> ?job), queue := queue d @ [newId]\<rparr>"
  have s: "startDownload d newId strm quality = processQueue ?d2"
    by (simp add: startDownload_def)
  have e: "queue d = []" if "activeDownloads d < maxConcurrent d"
    using reachable_inv_slots [OF assms(1)] that by (simp add: inv_slots_def)
  have busy: "\<not> activeDownloads d < maxConcurrent d \<Longrightarrow> processQueue ?d2 = ?d2"
    by (simp add: processQueue_stop)
  have free: "activeDownloads d < maxConcurrent d \<Longrightarrow>
      processQueue ?d2 = fst (begin_download (?d2\<lparr>queue := []\<rparr>) newId)"
    by (subst processQueue_go [where j = newId and q = "[]"])
       (simp_all add: processQueue_stop e)
  have 1: "job_status (processQueue ?d2) newId = Some Downloading
          \<and> gotCalls (processQueue ?d2) = gotCalls d @ [(newId, s_url strm)]
          \<and> emitted (processQueue ?d2) = emitted d
          \<and> queue (processQueue ?d2) = []"
    if "activeDownloads d < maxConcurrent d" "s_type strm \<in> {Hls, Dash, Direct}"
    using that by (auto simp: free begin_download_def job_status_def Let_def)
  have 2: "job_status (processQueue ?d2) newId = Some Failed
          \<and> map_option job_error (jobs (processQueue ?d2) newId)
                = Some (Some (''Unsupported stream type: '' @ stream_type_text (s_type strm)))
          \<and> gotCalls (processQueue ?d2) = gotCalls d
          \<and> emitted (processQueue ?d2)
                = emitted d @ [OnError newId
                                 (''Unsupported stream type: '' @ stream_type_text (s_type strm))]
          \<and> queue (processQueue ?d2) = []"
    if "activeDownloads d < maxConcurrent d" "s_type strm \<notin> {Hls, Dash, Direct}"
    using that
    by (cases "s_type strm")
       (simp_all add: free begin_download_def conclude_def plain_error_def job_status_def Let_def)
  have 3: "job_status (processQueue ?d2) newId = Some Pending
          \<and> queue (processQueue ?d2) = queue d @ [newId]
          \<and> gotCalls (processQueue ?d2) = gotCalls d
          \<and> emitted (processQueue ?d2) = emitted d"
    if "\<not> activeDownloads d < maxConcurrent d"
    using that by (simp add: busy job_status_def)
  show ?thesis
    unfolding s using 1 2 3 by blast
qed

theorem startDownload_ignores_protection_witness:
  "reachable no_url_api no_dom_api fresh_downloader
   \<and> jobs fresh_downloader ''job-1'' = None
   \<and> activeDownloads fresh_downloader < maxConcurrent fresh_downloader
   \<and> protection drm_stream = ProtDrm \<and> s_type drm_stream = Hls
   \<and> job_status (startDownload fresh_downloader ''job-1'' drm_stream some_quality) ''job-1''
       = Some Downloading
   \<and> gotCalls (startDownload fresh_downloader ''job-1'' drm_stream some_quality)
       = [(''job-1'', ''https://cdn.example/v.m3u8'')]
   \<and> protection (drm_stream\<lparr>s_type := Ytdlp\<rparr>) = ProtDrm
   \<and> job_status (startDownload fresh_downloader ''job-1'' (drm_stream\<lparr>s_type := Ytdlp\<rparr>) some_quality)
        ''job-1'' = Some Failed
   \<and> emitted (startDownload fresh_downloader ''job-1'' (drm_stream\<lparr>s_type := Ytdlp\<rparr>) some_quality)
       = [OnError ''job-1'' ''Unsupported stream type: ytdlp'']
   \<and> reachable no_url_api no_dom_api waiting_downloader
   \<and> jobs waiting_downloader ''job-3'' = None
   \<and> \<not> activeDownloads waiting_downloader < maxConcurrent waiting_downloader
   \<and> queue waiting_downloader = [''job-2'']
   \<and> job_status (startDownload waiting_downloader ''job-3'' drm_stream some_quality) ''job-3''
       = Some Pending
   \<and> queue (startDownload waiting_downloader ''job-3'' drm_stream some_quality)
       = [''job-2'', ''job-3'']
   \<and> gotCalls (startDownload waiting_downloader ''job-3'' drm_stream some_quality)
       = gotCalls waiting_downloader"
proof -
  have p: "protection drm_stream = ProtDrm" "protection (drm_stream\<lparr>s_type := Ytdlp\<rparr>) = ProtDrm"
    by (simp_all add: drm_stream_def)
  have f: "jobs fresh_downloader ''job-1'' = None"
          "activeDownloads fresh_downloader < maxConcurrent fresh_downloader"
          "gotCalls fresh_downloader = []" "emitted fresh_downloader = []"
    by (simp_all add: fresh_downloader_def new_downloader_def)
  have w: "jobs waiting_downloader ''job-3'' = None"
          "\<not> activeDownloads waiting_downloader < maxConcurrent waiting_downloader"
          "queue waiting_downloader = [''job-2'']"
    by (simp_all add: waiting_downloader_eq)
  have t: "s_type drm_stream = Hls" "s_url drm_stream = ''https://cdn.example/v.m3u8''"
          "s_type (drm_stream\<lparr>s_type := Ytdlp\<rparr>) = Ytdlp"
    by (simp_all add: drm_stream_def)
  note h = startDownload_ignores_protection [OF reachable_fresh_downloader f(1),
             of drm_stream some_quality]
  note y = startDownload_ignores_protection [OF reachable_fresh_downloader f(1),
             of "drm_stream\<lparr>s_type := Ytdlp\<rparr>" some_quality]
  note z = startDownload_ignores_protection [OF reachable_waiting_downloader w(1),
             of drm_stream some_quality]
  have 1: "job_status (startDownload fresh_downloader ''job-1'' drm_stream some_quality) ''job-1''
       = Some Downloading"
      "gotCalls (startDownload fresh_downloader ''job-1'' drm_stream some_quality)
       = [(''job-1'', ''https://cdn.example/v.m3u8'')]"
    using h f t by simp_all
  have 2: "job_status (startDownload fresh_downloader ''job-1'' (drm_stream\<lparr>s_type := Ytdlp\<rparr>) some_quality)
        ''job-1'' = Some Failed"
     "emitted (startDownload fresh_downloader ''job-1'' (drm_stream\<lparr>s_type := Ytdlp\<rparr>) some_quality)
       = [OnError ''job-1'' ''Unsupported stream type: ytdlp'']"
    using y f t by simp_all
  have 3: "job_status (startDownload waiting_downloader ''job-3'' drm_stream some_quality) ''job-3''
       = Some Pending"
    "queue (startDownload waiting_downloader ''job-3'' drm_stream some_quality)
       = [''job-2'', ''job-3'']"
    "gotCalls (startDownload waiting_downloader ''job-3'' drm_stream some_quality)
       = gotCalls waiting_downloader"
    using z w by simp_all
  show ?thesis
    by (intro conjI reachable_fresh_downloader reachable_waiting_downloader p f(1,2) w t(1) 1 2 3)
qed

subsection \<open>The invariants of tasks and events\<close>

lemma progress_only_simps [simp]:
  "progress_only []"
  "progress_only (e # es) \<longleftrightarrow> \<not> terminal e \<and> progress_only es"
  "progress_only (es @ es') \<longleftrightarrow> progress_only es \<and> progress_only es'"
  "progress_only (map (OnProgress j) prs)"
  by (auto simp: progress_only_def)

lemma progress_only_butlast: "progress_only es \<Longrightarrow> progress_only (butlast es)"
  by (auto simp: progress_only_def dest: in_set_butlastD)

lemma job_events_simps [simp]:
  "job_events (d\<lparr>emitted := es\<rparr>) j = filter (\<lambda>e. event_job e = j) es"
  "job_events (d\<lparr>jobs := js\<rparr>) j = job_events d j"
  "job_events (d\<lparr>queue := q\<rparr>) j = job_events d j"
  "job_events (d\<lparr>tasks := ts\<rparr>) j = job_events d j"
  "job_events (d\<lparr>nextTask := n\<rparr>) j = job_events d j"
  "job_events (d\<lparr>gotCalls := rs\<rparr>) j = job_events d j"
  "job_events (d\<lparr>activeDownloads := a\<rparr>) j = job_events d j"
  "job_events (d\<lparr>abortControllers := cs\<rparr>) j = job_events d j"
  "job_events (d\<lparr>downloadPath := p\<rparr>) j = job_events d j"
  by (simp_all add: job_events_def)

lemma job_got_calls_simps [simp]:
  "job_got_calls (d\<lparr>gotCalls := rs\<rparr>) j = map snd (filter (\<lambda>r. fst r = j) rs)"
  "job_got_calls (d\<lparr>jobs := js\<rparr>) j = job_got_calls d j"
  "job_got_calls (d\<lparr>queue := q\<rparr>) j = job_got_calls d j"
  "job_got_calls (d\<lparr>tasks := ts\<rparr>) j = job_got_calls d j"
  "job_got_calls (d\<lparr>nextTask := n\<rparr>) j = job_got_calls d j"
  "job_got_calls (d\<lparr>emitted := es\<rparr>) j = job_got_calls d j"
  "job_got_calls (d\<lparr>activeDownloads := a\<rparr>) j = job_got_calls d j"
  "job_got_calls (d\<lparr>abortControllers := cs\<rparr>) j = job_got_calls d j"
  "job_got_calls (d\<lparr>downloadPath := p\<rparr>) j = job_got_calls d j"
  by (simp_all add: job_got_calls_def)

lemma job_status_simps [simp]:
  "job_status (d\<lparr>jobs := js\<rparr>) j = map_option status (js j)"
  "job_status (d\<lparr>emitted := es\<rparr>) j = job_status d j"
  "job_status (d\<lparr>queue := q\<rparr>) j = job_status d j"
  "job_status (d\<lparr>tasks := ts\<rparr>) j = job_status d j"
  "job_status (d\<lparr>nextTask := n\<rparr>) j = job_status d j"
  "job_status (d\<lparr>gotCalls := rs\<rparr>) j = job_status d j"
  "job_status (d\<lparr>activeDownloads := a\<rparr>) j = job_status d j"
  "job_status (d\<lparr>abortControllers := cs\<rparr>) j = job_status d j"
  "job_status (d\<lparr>downloadPath := p\<rparr>) j = job_status d j"
  by (simp_all add: job_status_def)

lemma filter_job_progress:
  "filter (\<lambda>e. event_job e = j) (map (OnProgress j') prs) = (if j = j' then map (OnProgress j') prs else [])"
  by (induction prs) auto

text \<open>Frame rules: the invariant of a job or a task speaks of a few fields only.\<close>

lemma job_inv_frame:
  assumes "job_inv d j"
    and "jobs d' j = jobs d j" and "job_events d' j = job_events d j"
    and "j \<in> set (queue d') \<Longrightarrow> j \<in> set (queue d)"
  shows "job_inv d' j"
  using assms unfolding job_inv_def job_status_def by auto

lemma task_inv_frame:
  assumes "task_inv d tid t"
    and "jobs d' (t_job t) = jobs d (t_job t)" and "job_events d' (t_job t) = job_events d (t_job t)"
    and "t_job t \<in> set (queue d') \<Longrightarrow> t_job t \<in> set (queue d)"
    and "nextTask d \<le> nextTask d'" and "t_job t' = t_job t"
  shows "task_inv d' tid t'"
  using assms unfolding task_inv_def job_status_def by auto

text \<open>What \<open>conclude\<close> does to the job table and to the events.\<close>

lemma conclude_fields [simp]:
  "tasks (conclude d j tid e) = (tasks d)(tid := None)"
  "nextTask (conclude d j tid e) = nextTask d"
  "gotCalls (conclude d j tid e) = gotCalls d"
  "downloadPath (conclude d j tid e) = downloadPath d"
  "maxConcurrent (conclude d j tid e) = maxConcurrent d"
  "ffmpegAvailable (conclude d j tid e) = ffmpegAvailable d"
  by (simp_all add: conclude_def Let_def split: option.splits ending.splits)

lemma conclude_other:
  "j' \<noteq> j \<Longrightarrow> jobs (conclude d j tid e) j' = jobs d j'"
  "j' \<noteq> j \<Longrightarrow> job_events (conclude d j tid e) j' = job_events d j'"
  by (simp_all add: conclude_def Let_def job_events_def split: option.splits ending.splits)

lemma conclude_Returned:
  assumes "jobs d j = Some job"
  shows "status job \<noteq> Cancelled \<Longrightarrow>
           jobs (conclude d j tid Returned) j = Some (job\<lparr>status := Completed\<rparr>)
           \<and> job_events (conclude d j tid Returned) j = job_events d j @ [OnComplete j (outputPath job)]"
    and "status job = Cancelled \<Longrightarrow>
           jobs (conclude d j tid Returned) j = Some job
           \<and> job_events (conclude d j tid Returned) j = job_events d j"
  using assms by (simp_all add: conclude_def Let_def job_events_def)

lemma conclude_Thrown:
  assumes "jobs d j = Some job"
  shows "err_name err \<noteq> ''AbortError'' \<and> status job \<noteq> Cancelled \<Longrightarrow>
           jobs (conclude d j tid (Thrown err)) j
             = Some (job\<lparr>status := Failed, job_error := Some (err_message err)\<rparr>)
           \<and> job_events (conclude d j tid (Thrown err)) j
               = job_events d j @ [OnError j (err_message err)]"
    and "\<not> (err_name err \<noteq> ''AbortError'' \<and> status job \<noteq> Cancelled) \<Longrightarrow>
           jobs (conclude d j tid (Thrown err)) j = Some job
           \<and> job_events (conclude d j tid (Thrown err)) j = job_events d j"
  using assms by (simp_all add: conclude_def Let_def job_events_def)

lemma inv_tasks_conclude:
  assumes "inv_tasks d"
    and "\<forall>tid' t. tasks d tid' = Some t \<longrightarrow> t_job t = j \<longrightarrow> tid' = tid"
  shows "inv_tasks (conclude d j tid e)"
proof -
  have "task_inv (conclude d j tid e) tid' t"
    if "tasks d tid' = Some t" "tid' \<noteq> tid" for tid' t
  proof -
    have "t_job t \<noteq> j" using that assms(2) by blast
    moreover have "task_inv d tid' t"
      using that assms(1) by (simp add: inv_tasks_def)
    ultimately show ?thesis
      by (rule_tac task_inv_frame [where d = d]) (simp_all add: conclude_other)
  qed
  then show ?thesis
    using assms(1) unfolding inv_tasks_def
    by (auto split: if_splits)
qed

lemma inv_events_conclude:
  assumes "inv_events d" and "jobs d j = Some job"
    and "status job \<in> {Downloading, Merging, Cancelled}"
    and "progress_only (job_events d j)"
  shows "inv_events (conclude d j tid e)"
proof -
  have ji: "job_inv d j'" for j'
    using assms(1) by (simp add: inv_events_def)
  have q: "j \<notin> set (queue d)"
    using ji [of j] assms(2,3) by (auto simp: job_inv_def job_status_def)
  have self: "(jobs (conclude d j tid e) j = Some job \<and> job_events (conclude d j tid e) j = job_events d j)
              \<or> (jobs (conclude d j tid e) j = Some (job\<lparr>status := Completed\<rparr>)
                  \<and> job_events (conclude d j tid e) j = job_events d j @ [OnComplete j (outputPath job)])
              \<or> (\<exists>msg. jobs (conclude d j tid e) j = Some (job\<lparr>status := Failed, job_error := Some msg\<rparr>)
                  \<and> job_events (conclude d j tid e) j = job_events d j @ [OnError j msg])"
  proof (cases e)
    case Returned
    then show ?thesis
      using conclude_Returned [OF assms(2), of tid] by (cases "status job = Cancelled") auto
  next
    case (Thrown err)
    then show ?thesis
      using conclude_Thrown [OF assms(2), of err tid]
      by (cases "err_name err \<noteq> ''AbortError'' \<and> status job \<noteq> Cancelled") auto
  qed
  have "job_inv (conclude d j tid e) j'" for j'
  proof (cases "j' = j")
    case False
    then show ?thesis
      by (intro job_inv_frame [OF ji [of j']]) (simp_all add: conclude_other)
  next
    case True
    show ?thesis
      unfolding True using self
    proof (elim disjE exE conjE)
      assume "jobs (conclude d j tid e) j = Some job"
        "job_events (conclude d j tid e) j = job_events d j"
      then show "job_inv (conclude d j tid e) j"
        using assms(2) by (intro job_inv_frame [OF ji [of j]]) simp_all
    next
      assume "jobs (conclude d j tid e) j = Some (job\<lparr>status := Completed\<rparr>)"
        "job_events (conclude d j tid e) j = job_events d j @ [OnComplete j (outputPath job)]"
      then show "job_inv (conclude d j tid e) j"
        using q assms(4) by (simp add: job_inv_def job_status_def)
    next
      fix msg
      assume "jobs (conclude d j tid e) j = Some (job\<lparr>status := Failed, job_error := Some msg\<rparr>)"
        "job_events (conclude d j tid e) j = job_events d j @ [OnError j msg]"
      then show "job_inv (conclude d j tid e) j"
        using q assms(4) by (simp add: job_inv_def job_status_def)
    qed
  qed
  then show ?thesis
    by (simp add: inv_events_def)
qed

lemma inv_conclude:
  assumes "inv d" and "jobs d j = Some job"
    and "status job \<in> {Downloading, Merging, Cancelled}"
    and "progress_only (job_events d j)"
    and "\<forall>tid' t. tasks d tid' = Some t \<longrightarrow> t_job t = j \<longrightarrow> tid' = tid"
  shows "inv (conclude d j tid e)"
  using assms unfolding inv_def
  by (simp add: inv_queue_conclude inv_tasks_conclude inv_events_conclude)

text \<open>The three ways \<open>executeDownload\<close> can go up to its first \<open>await\<close>.\<close>

lemma begin_download_cases:
  obtains (skip) "fst (begin_download d j) = d"
  | (suspend) job p where "jobs d j = Some job" "status job \<noteq> Cancelled"
      "fst (begin_download d j) =
         d\<lparr>activeDownloads := activeDownloads d + 1,
           jobs := (jobs d)(j \<mapsto> job\<lparr>status := Downloading\<rparr>),
           abortControllers := (abortControllers d)(j \<mapsto> nextTask d),
           nextTask := nextTask d + 1,
           tasks := (tasks d)(nextTask d \<mapsto> \<lparr>t_job = j, t_aborted = False, t_pc = p\<rparr>),
           gotCalls := gotCalls d @ [(j, s_url (stream job))]\<rparr>"
  | (fail) job err where "jobs d j = Some job" "status job \<noteq> Cancelled"
      "fst (begin_download d j) =
         conclude (d\<lparr>activeDownloads := activeDownloads d + 1,
                     jobs := (jobs d)(j \<mapsto> job\<lparr>status := Downloading\<rparr>),
                     abortControllers := (abortControllers d)(j \<mapsto> nextTask d),
                     nextTask := nextTask d + 1\<rparr>) j (nextTask d) (Thrown err)"
proof (cases "jobs d j")
  case None
  then show ?thesis by (intro skip) (simp add: begin_download_def)
next
  case (Some job)
  show ?thesis
  proof (cases "status job = Cancelled")
    case True
    then show ?thesis using Some by (intro skip) (simp add: begin_download_def)
  next
    case False
    show ?thesis
    proof (cases "s_type (stream job)")
      case Hls
      then show ?thesis using Some False by (intro suspend [of job HlsManifest]) (simp_all add: begin_download_def Let_def)
    next
      case Dash
      then show ?thesis using Some False by (intro suspend [of job DashManifest]) (simp_all add: begin_download_def Let_def)
    next
      case Direct
      then show ?thesis using Some False
        by (intro suspend [of job "DirectStream (output_path d job)"]) (simp_all add: begin_download_def Let_def)
    next
      case Ytdlp
      then show ?thesis using Some False
        by (intro fail [of job "plain_error (''Unsupported stream type: '' @ stream_type_text Ytdlp)"])
           (simp_all add: begin_download_def Let_def)
    next
      case UnknownType
      then show ?thesis using Some False
        by (intro fail [of job "plain_error (''Unsupported stream type: '' @ stream_type_text UnknownType)"])
           (simp_all add: begin_download_def Let_def)
    qed
  qed
qed

lemma inv_claimed:
  assumes "inv d" and "jobs d j = Some job" and "j \<notin> set (queue d)" and "job_events d j = []"
    and "\<forall>tid t. tasks d tid = Some t \<longrightarrow> t_job t \<noteq> j"
  shows "inv (d\<lparr>activeDownloads := a,
                jobs := (jobs d)(j \<mapsto> job\<lparr>status := Downloading\<rparr>),
                abortControllers := (abortControllers d)(j \<mapsto> c),
                nextTask := nextTask d + 1\<rparr>)" (is "inv ?d'")
proof -
  have q: "inv_queue ?d'"
    using assms(1,2) by (auto simp: inv_def inv_queue_def)
  have ti: "task_inv ?d' tid t" if "tasks d tid = Some t" for tid t
  proof -
    have "task_inv d tid t" "t_job t \<noteq> j"
      using that assms(1,5) by (auto simp: inv_def inv_tasks_def)
    then show ?thesis
      by (rule_tac task_inv_frame [where d = d]) simp_all
  qed
  have t: "inv_tasks ?d'"
    using assms(1) ti unfolding inv_def inv_tasks_def by simp
  have ji: "job_inv d j'" for j'
    using assms(1) by (simp add: inv_def inv_events_def)
  have "job_inv ?d' j'" for j'
  proof (cases "j' = j")
    case False
    then show ?thesis
      by (intro job_inv_frame [OF ji [of j']]) simp_all
  next
    case True
    then show ?thesis
      using assms(3,4) by (simp add: job_inv_def)
  qed
  then show ?thesis
    using q t by (simp add: inv_def inv_events_def)
qed

lemma inv_suspended:
  assumes "inv d" and "jobs d j = Some job" and "j \<notin> set (queue d)" and "job_events d j = []"
    and "\<forall>tid t. tasks d tid = Some t \<longrightarrow> t_job t \<noteq> j"
  shows "inv (d\<lparr>activeDownloads := a,
                jobs := (jobs d)(j \<mapsto> job\<lparr>status := Downloading\<rparr>),
                abortControllers := (abortControllers d)(j \<mapsto> c),
                nextTask := nextTask d + 1,
                tasks := (tasks d)(nextTask d \<mapsto> \<lparr>t_job = j, t_aborted = False, t_pc = p\<rparr>),
                gotCalls := r\<rparr>)" (is "inv ?d'")
proof -
  let ?c = "d\<lparr>activeDownloads := a,
                jobs := (jobs d)(j \<mapsto> job\<lparr>status := Downloading\<rparr>),
                abortControllers := (abortControllers d)(j \<mapsto> c),
                nextTask := nextTask d + 1\<rparr>"
  have c: "inv ?c"
    by (rule inv_claimed [OF assms])
  have q: "inv_queue ?d'"
    using c by (simp add: inv_def inv_queue_def)
  have e: "inv_events ?d'"
    using c by (simp add: inv_def inv_events_def job_inv_def)
  have old: "tid < nextTask d" if "tasks d tid = Some t" for tid t
    using that assms(1) by (auto simp: inv_def inv_tasks_def task_inv_def)
  have ti: "task_inv ?d' tid t" if "tasks d tid = Some t" for tid t
  proof -
    have "task_inv ?c tid t"
      using that c by (simp add: inv_def inv_tasks_def)
    then show ?thesis
      by (rule task_inv_frame) simp_all
  qed
  have new: "task_inv ?d' (nextTask d) \<lparr>t_job = j, t_aborted = False, t_pc = p\<rparr>"
    using assms(3,4) by (simp add: task_inv_def)
  have u: "tid = tid'" if "tasks d tid = Some t" "tasks d tid' = Some t'" "t_job t = t_job t'"
    for tid tid' t t'
    using that assms(1) unfolding inv_def inv_tasks_def by blast
  have "inv_tasks ?d'"
    unfolding inv_tasks_def
  proof (intro conjI allI impI)
    fix tid t assume "tasks ?d' tid = Some t"
    then show "task_inv ?d' tid t"
      using ti new by (auto split: if_splits)
  next
    fix tid tid' t t'
    assume a: "tasks ?d' tid = Some t" "tasks ?d' tid' = Some t'" "t_job t = t_job t'"
    show "tid = tid'"
    proof (cases "tid = nextTask d"; cases "tid' = nextTask d")
      assume "tid = nextTask d" "tid' \<noteq> nextTask d"
      then have "t_job t = j" "tasks d tid' = Some t'" using a by auto
      then show ?thesis using assms(5) a(3) by metis
    next
      assume "tid \<noteq> nextTask d" "tid' = nextTask d"
      then have "t_job t' = j" "tasks d tid = Some t" using a by auto
      then show ?thesis using assms(5) a(3) by metis
    next
      assume "tid \<noteq> nextTask d" "tid' \<noteq> nextTask d"
      then have "tasks d tid = Some t" "tasks d tid' = Some t'" using a by auto
      then show ?thesis using u a(3) by blast
    qed simp
  qed
  then show ?thesis
    using q e by (simp add: inv_def)
qed

lemma inv_begin_download:
  assumes "inv d" and "j \<notin> set (queue d)" and "job_events d j = []"
    and "\<forall>tid t. tasks d tid = Some t \<longrightarrow> t_job t \<noteq> j"
  shows "inv (fst (begin_download d j))"
proof (cases rule: begin_download_cases [of d j])
  case skip
  then show ?thesis using assms(1) by simp
next
  case (suspend job p)
  show ?thesis
    unfolding suspend(3) by (rule inv_suspended [OF assms(1) suspend(1) assms(2-4)])
next
  case (fail job err)
  let ?c = "d\<lparr>activeDownloads := activeDownloads d + 1,
              jobs := (jobs d)(j \<mapsto> job\<lparr>status := Downloading\<rparr>),
              abortControllers := (abortControllers d)(j \<mapsto> nextTask d),
              nextTask := nextTask d + 1\<rparr>"
  have c: "inv ?c"
    by (rule inv_claimed [OF assms(1) fail(1) assms(2-4)])
  show ?thesis
    unfolding fail(3)
    by (rule inv_conclude [OF c, where job = "job\<lparr>status := Downloading\<rparr>"])
       (use assms(3,4) in simp_all)
qed

lemma inv_pop_begin:
  assumes "inv d" and "queue d \<noteq> []"
  shows "inv (fst (begin_download (d\<lparr>queue := tl (queue d)\<rparr>) (hd (queue d))))"
proof -
  let ?j = "hd (queue d)"
  let ?d0 = "d\<lparr>queue := tl (queue d)\<rparr>"
  have h: "?j \<in> set (queue d)" using assms(2) by simp
  have sub: "x \<in> set (queue d)" if "x \<in> set (tl (queue d))" for x
    using that assms(2) by (auto dest: list.set_sel(2))
  have q: "inv_queue ?d0"
    using assms by (auto simp: inv_def inv_queue_def distinct_tl dest: list.set_sel(2))
  have t: "inv_tasks ?d0"
    using assms(1) sub unfolding inv_def inv_tasks_def task_inv_def by auto
  have e: "inv_events ?d0"
    using assms(1) sub unfolding inv_def inv_events_def job_inv_def by auto
  have 1: "?j \<notin> set (queue ?d0)"
    using assms by (cases "queue d") (auto simp: inv_def inv_queue_def)
  have 2: "job_events ?d0 ?j = []"
    using assms(1) h by (auto simp: inv_def inv_events_def job_inv_def)
  have "t_job t \<noteq> ?j" if "tasks d tid = Some t" for tid t
  proof -
    have "task_inv d tid t"
      using that assms(1) by (simp add: inv_def inv_tasks_def)
    then show ?thesis
      using h by (auto simp: task_inv_def)
  qed
  then have 3: "\<forall>tid t. tasks ?d0 tid = Some t \<longrightarrow> t_job t \<noteq> ?j"
    by simp
  show ?thesis
    by (rule inv_begin_download [OF _ 1 2 3]) (simp add: inv_def q t e)
qed

lemma inv_processQueue: "inv d \<Longrightarrow> inv (processQueue d)"
  by (rule processQueue_preserves [where P = inv]) (auto intro: inv_pop_begin)

lemma inv_startDownload:
  assumes "inv d" and "jobs d newId = None"
  shows "inv (startDownload d newId strm quality)"
proof -
  let ?job = "\<lparr>job_id = newId, stream = strm, selectedQuality = quality, status = Pending,
               progress = \<lparr>downloadedBytes = 0, currentSegment = None, totalSegments = None\<rparr>,
               outputPath = None, job_error = None\<rparr>"
  let ?d' = "d\<lparr>jobs := (jobs d)(newId \<mapsto> ?job), queue := queue d @ [newId]\<rparr>"
  have n: "newId \<notin> set (queue d)" "job_events d newId = []"
    using assms by (auto simp: inv_def inv_queue_def inv_events_def job_inv_def)
  have nt: "t_job t \<noteq> newId" if "tasks d tid = Some t" for tid t
  proof -
    have "task_inv d tid t"
      using that assms(1) by (simp add: inv_def inv_tasks_def)
    then have "jobs d (t_job t) \<noteq> None"
      by (auto simp: task_inv_def job_status_def)
    then show ?thesis using assms(2) by auto
  qed
  have q: "inv_queue ?d'"
    using assms n by (auto simp: inv_def inv_queue_def)
  have "task_inv ?d' tid t" if "tasks d tid = Some t" for tid t
  proof -
    have "task_inv d tid t"
      using that assms(1) by (simp add: inv_def inv_tasks_def)
    then show ?thesis
      using nt [OF that] by (rule_tac task_inv_frame [where d = d]) simp_all
  qed
  then have t: "inv_tasks ?d'"
    using assms(1) unfolding inv_def inv_tasks_def by simp
  have ji: "job_inv d j'" for j'
    using assms(1) by (simp add: inv_def inv_events_def)
  have "job_inv ?d' j'" for j'
  proof (cases "j' = newId")
    case False
    then show ?thesis
      by (intro job_inv_frame [OF ji [of j']]) simp_all
  next
    case True
    then show ?thesis
      using n by (simp add: job_inv_def)
  qed
  then have "inv ?d'"
    using q t by (simp add: inv_def inv_events_def)
  then show ?thesis
    unfolding startDownload_def Let_def by (rule inv_processQueue)
qed

lemma in_remove1D: "x \<in> set (remove1 y xs) \<Longrightarrow> x \<in> set xs"
  using set_remove1_subset by fastforce

text \<open>What \<open>cancelDownload\<close> does to the fields.\<close>

lemma cancelDownload_fields:
  "jobs (cancelDownload d j) =
     (case jobs d j of None \<Rightarrow> jobs d | Some job \<Rightarrow> (jobs d)(j \<mapsto> job\<lparr>status := Cancelled\<rparr>))"
  "queue (cancelDownload d j) = remove1 j (queue d)"
  "nextTask (cancelDownload d j) = nextTask d"
  "abortControllers (cancelDownload d j) = (abortControllers d)(j := None)"
  "map_option t_job (tasks (cancelDownload d j) tid) = map_option t_job (tasks d tid)"
  "job_events (cancelDownload d j) j' = job_events d j'"
  "job_got_calls (cancelDownload d j) j' = job_got_calls d j'"
  by (auto simp: cancelDownload_def Let_def job_events_def job_got_calls_def split: option.splits)

lemma inv_cancelDownload:
  assumes "inv d"
  shows "inv (cancelDownload d j)"
proof -
  let ?d' = "cancelDownload d j"
  have dq: "distinct (queue d)"
    using assms by (simp add: inv_def inv_queue_def)
  have q: "inv_queue ?d'"
    using assms by (simp add: inv_def inv_queue_cancelDownload)
  have jo: "jobs ?d' j' = jobs d j'" if "j' \<noteq> j" for j'
    using that by (simp add: cancelDownload_fields split: option.splits)
  have js: "job_status ?d' j = (case jobs d j of None \<Rightarrow> None | Some job \<Rightarrow> Some Cancelled)"
    by (simp add: job_status_def cancelDownload_fields split: option.splits)
  have old: "\<exists>t. tasks d tid = Some t \<and> t_job t = t_job t'" if "tasks ?d' tid = Some t'" for tid t'
    using cancelDownload_fields(5) [of d j tid] that by (cases "tasks d tid") auto
  have ti: "task_inv ?d' tid t'" if a: "tasks ?d' tid = Some t'" for tid t'
  proof -
    obtain t where t: "tasks d tid = Some t" "t_job t = t_job t'"
      using old [OF a] by blast
    have i: "task_inv d tid t"
      using t assms by (simp add: inv_def inv_tasks_def)
    show ?thesis
    proof (cases "t_job t = j")
      case False
      then show ?thesis
        using t(2) by (intro task_inv_frame [OF i])
          (auto simp: jo cancelDownload_fields(2,3,6) dest: in_remove1D)
    next
      case True
      then have "jobs d j \<noteq> None"
        using i by (auto simp: task_inv_def job_status_def)
      then have "job_status ?d' j = Some Cancelled"
        by (auto simp: js)
      then show ?thesis
        using i True t(2) dq
        by (auto simp: task_inv_def cancelDownload_fields(2,3,6) dest: in_remove1D)
    qed
  qed
  have "inv_tasks ?d'"
    unfolding inv_tasks_def
  proof (intro conjI allI impI)
    fix tid t assume "tasks ?d' tid = Some t"
    then show "task_inv ?d' tid t" by (rule ti)
  next
    fix tid tid' t t'
    assume a: "tasks ?d' tid = Some t" "tasks ?d' tid' = Some t'" "t_job t = t_job t'"
    obtain s s' where "tasks d tid = Some s" "t_job s = t_job t"
        "tasks d tid' = Some s'" "t_job s' = t_job t'"
      using old [OF a(1)] old [OF a(2)] by blast
    then show "tid = tid'"
      using assms a(3) unfolding inv_def inv_tasks_def by metis
  qed
  moreover have "job_inv ?d' j'" for j'
  proof -
    have i: "job_inv d j'"
      using assms by (simp add: inv_def inv_events_def)
    show ?thesis
    proof (cases "j' = j \<and> jobs d j \<noteq> None")
      case False
      then have "jobs ?d' j' = jobs d j'"
        by (cases "j' = j") (auto simp: cancelDownload_fields(1) split: option.splits)
      then show ?thesis
        by (intro job_inv_frame [OF i])
           (auto simp: cancelDownload_fields(2,3,6) dest: in_remove1D)
    next
      case True
      then have "job_status ?d' j' = Some Cancelled" "jobs ?d' j' \<noteq> None"
        using js by (auto simp: cancelDownload_fields)
      moreover have "j' \<notin> set (queue ?d')"
        using True dq by (simp add: cancelDownload_fields)
      moreover have "progress_only (butlast (job_events d j'))"
        using i by (simp add: job_inv_def)
      ultimately show ?thesis
        by (auto simp: job_inv_def cancelDownload_fields(6) job_status_def)
    qed
  qed
  ultimately show ?thesis
    using q by (simp add: inv_def inv_events_def)
qed

text \<open>The download functions write the status \<open>merging\<close> and no other, and they write it
  only on the way to an \<open>await\<close>.\<close>

lemma loop_status:
  "status (st_job (hls_loop d ab job segs dir i files bytes)) \<in> {status job, Merging}"
  "status (st_job (dash_loop d ab job segs dir i files bytes)) \<in> {status job, Merging}"
  "st_next (hls_loop d ab job segs dir i files bytes) = Return \<Longrightarrow> False"
  "st_next (dash_loop d ab job segs dir i files bytes) = Return \<Longrightarrow> False"
  "st_next (hls_loop d ab job segs dir i files bytes) = Throw e \<Longrightarrow>
     st_job (hls_loop d ab job segs dir i files bytes) = job"
  "st_next (dash_loop d ab job segs dir i files bytes) = Throw e \<Longrightarrow>
     st_job (dash_loop d ab job segs dir i files bytes) = job"
  by (auto simp: hls_loop_def dash_loop_def step_to_def Let_def split: if_splits)

lemma loop_status_same:
  assumes "status job' = status job"
  shows "status (st_job (hls_loop d ab job' segs dir i files bytes)) = status job
         \<or> status (st_job (hls_loop d ab job' segs dir i files bytes)) = Merging"
    and "status (st_job (dash_loop d ab job' segs dir i files bytes)) = status job
         \<or> status (st_job (dash_loop d ab job' segs dir i files bytes)) = Merging"
  using loop_status(1,2) [of d ab job' segs dir i files bytes] assms by auto

lemma download_step_status:
  "status (st_job (download_step U D d ab job p out)) \<in> {status job, Merging}"
proof (cases out)
  case (Resolved v)
  show ?thesis
  proof (cases p)
    case (HlsWrite segs dir i files bytes n)
    then show ?thesis
      using Resolved by (simp add: download_step_def Let_def loop_status_same)
  next
    case (DashWrite segs dir i files bytes n)
    then show ?thesis
      using Resolved by (simp add: download_step_def Let_def loop_status_same)
  next
    case (HlsMkdir segs dir)
    then show ?thesis
      using Resolved by (simp add: download_step_def loop_status_same)
  next
    case (DashMkdir r segs dir)
    then show ?thesis
      using Resolved
      by (simp add: download_step_def step_to_def loop_status_same split: option.splits)
  next
    case (DashInitWrite segs dir)
    then show ?thesis
      using Resolved by (simp add: download_step_def loop_status_same)
  qed (use Resolved in \<open>auto simp: download_step_def step_to_def Let_def
        split: payload.splits sum.splits HLSPlaylist.splits option.splits list.splits if_splits\<close>)
qed (auto simp: download_step_def step_to_def Let_def split: pc.splits)

text \<open>A step of a task: the job record is written, progress is reported, and the task
  waits at its next \<open>await\<close> or ends.\<close>

lemma inv_step:
  assumes "inv d" and "tasks d tid = Some t" and "jobs d (t_job t) = Some job"
    and "status job' \<in> {status job, Merging}"
  shows "inv (d\<lparr>jobs := (jobs d)(t_job t \<mapsto> job'), gotCalls := r,
                emitted := emitted d @ map (OnProgress (t_job t)) prs\<rparr>)" (is "inv ?d'")
proof -
  let ?j = "t_job t"
  have i: "task_inv d tid t"
    using assms(1,2) by (simp add: inv_def inv_tasks_def)
  then have st: "status job \<in> {Downloading, Merging, Cancelled}"
    and nq: "?j \<notin> set (queue d)" and po: "progress_only (job_events d ?j)"
    using assms(3) by (auto simp: task_inv_def job_status_def)
  have st': "status job' \<in> {Downloading, Merging, Cancelled}"
    using st assms(4) by auto
  have q: "inv_queue ?d'"
    using assms(1,3) by (auto simp: inv_def inv_queue_def)
  have ti: "task_inv ?d' tid' t'" if a: "tasks d tid' = Some t'" for tid' t'
  proof -
    have i': "task_inv d tid' t'"
      using a assms(1) by (simp add: inv_def inv_tasks_def)
    show ?thesis
    proof (cases "t_job t' = ?j")
      case False
      then show ?thesis
        by (intro task_inv_frame [OF i']) (simp_all add: job_events_def filter_job_progress)
    next
      case True
      then show ?thesis
        using i' st' po by (auto simp: task_inv_def job_events_def filter_job_progress)
    qed
  qed
  have t: "inv_tasks ?d'"
    using assms(1) ti unfolding inv_def inv_tasks_def by simp
  have "job_inv ?d' j" for j
  proof -
    have ji: "job_inv d j"
      using assms(1) by (simp add: inv_def inv_events_def)
    show ?thesis
    proof (cases "j = ?j")
      case False
      then show ?thesis
        by (intro job_inv_frame [OF ji]) (simp_all add: job_events_def filter_job_progress)
    next
      case True
      then show ?thesis
        using nq po st' assms(3)
        by (auto simp: job_inv_def job_events_def filter_job_progress intro: progress_only_butlast)
    qed
  qed
  then show ?thesis
    using q t by (simp add: inv_def inv_events_def)
qed

lemma inv_task_update:
  assumes "inv d" and "tasks d tid = Some t" and "t_job t' = t_job t"
  shows "inv (d\<lparr>tasks := (tasks d)(tid \<mapsto> t')\<rparr>)" (is "inv ?d'")
proof -
  have q: "inv_queue ?d'" "inv_events ?d'"
    using assms(1) by (simp_all add: inv_def inv_queue_def inv_events_def job_inv_def)
  have old: "\<exists>s. tasks d x = Some s \<and> t_job s = t_job s'" if a: "tasks ?d' x = Some s'" for x s'
    using a assms(2,3) by (cases "x = tid") auto
  have "inv_tasks ?d'"
    unfolding inv_tasks_def
  proof (intro conjI allI impI)
    fix x s' assume a: "tasks ?d' x = Some s'"
    obtain s where s: "tasks d x = Some s" "t_job s = t_job s'"
      using old [OF a] by blast
    have "task_inv d x s"
      using s(1) assms(1) by (simp add: inv_def inv_tasks_def)
    then show "task_inv ?d' x s'"
      using s(2) by (rule_tac task_inv_frame [where d = d and t = s]) simp_all
  next
    fix x y s' u'
    assume a: "tasks ?d' x = Some s'" "tasks ?d' y = Some u'" "t_job s' = t_job u'"
    obtain s u where "tasks d x = Some s" "t_job s = t_job s'" "tasks d y = Some u" "t_job u = t_job u'"
      using old [OF a(1)] old [OF a(2)] by blast
    then show "x = y"
      using assms(1) a(3) unfolding inv_def inv_tasks_def by metis
  qed
  then show ?thesis
    using q by (simp add: inv_def)
qed

lemma inv_tasks_unique:
  "inv d \<Longrightarrow> tasks d tid = Some t \<Longrightarrow> tasks d tid' = Some t' \<Longrightarrow> t_job t = t_job t' \<Longrightarrow> tid = tid'"
  unfolding inv_def inv_tasks_def by blast

lemma inv_resume:
  assumes "inv d"
  shows "inv (resume U D d tid out)"
proof (cases "tasks d tid")
  case None
  then show ?thesis using assms by (simp add: resume_def)
next
  case (Some t)
  show ?thesis
  proof (cases "jobs d (t_job t)")
    case None
    then show ?thesis using assms Some by (simp add: resume_def)
  next
    case (Some job)
    let ?j = "t_job t"
    let ?s = "download_step U D d (t_aborted t) job (t_pc t) out"
    let ?d1 = "d\<lparr>jobs := (jobs d)(?j \<mapsto> st_job ?s),
                 gotCalls := gotCalls d @ map (Pair ?j) (st_calls ?s),
                 emitted := emitted d @ map (OnProgress ?j) (st_progress ?s)\<rparr>"
    have t: "tasks d tid = Some t" by fact
    have 1: "inv ?d1"
      by (rule inv_step [OF assms t Some download_step_status])
    have i: "task_inv ?d1 tid t"
      using 1 t by (simp add: inv_def inv_tasks_def)
    have u: "\<forall>tid' t'. tasks ?d1 tid' = Some t' \<longrightarrow> t_job t' = ?j \<longrightarrow> tid' = tid"
      using inv_tasks_unique [OF 1, of _ _ tid t] t by auto
    have c: "inv (conclude ?d1 ?j tid e)" for e
      by (rule inv_conclude [OF 1 _ _ _ u, where job = "st_job ?s"])
         (use i in \<open>auto simp: task_inv_def\<close>)
    show ?thesis
    proof (cases "st_next ?s")
      case (Await p)
      have "inv (?d1\<lparr>tasks := (tasks ?d1)(tid \<mapsto> t\<lparr>t_pc := p\<rparr>)\<rparr>)"
        by (rule inv_task_update [OF 1]) (simp_all add: t)
      then show ?thesis
        using t Some Await by (simp add: resume_def Let_def)
    next
      case Return
      then show ?thesis
        using t Some c [of Returned] by (simp add: resume_def Let_def finish_def inv_processQueue)
    next
      case (Throw e)
      then show ?thesis
        using t Some c [of "Thrown e"] by (simp add: resume_def Let_def finish_def inv_processQueue)
    qed
  qed
qed

lemma reachable_inv: "reachable U D d \<Longrightarrow> inv d"
proof (induction rule: reachable.induct)
  case (created path maxc ffmpeg)
  then show ?case
    by (simp add: inv_def inv_queue_def inv_tasks_def inv_events_def job_inv_def
        new_downloader_def job_events_def job_status_def)
next
  case (started d newId strm quality)
  then show ?case by (simp add: inv_startDownload)
next
  case (cancelled d jobId)
  then show ?case by (simp add: inv_cancelDownload)
next
  case (resumed d tid out)
  then show ?case by (simp add: inv_resume)
next
  case (path_set d path)
  then show ?case
    by (simp add: inv_def inv_queue_def inv_tasks_def task_inv_def inv_events_def job_inv_def
        setDownloadPath_def)
qed

subsection \<open>What \<open>processQueue\<close> leaves alone\<close>

lemma job_got_calls_conclude [simp]:
  "job_got_calls (conclude d j tid e) j' = job_got_calls d j'"
  by (simp add: job_got_calls_def)

lemma begin_download_frame:
  assumes "j \<noteq> j'"
  shows "jobs (fst (begin_download d j')) j = jobs d j"
    and "job_events (fst (begin_download d j')) j = job_events d j"
    and "job_got_calls (fst (begin_download d j')) j = job_got_calls d j"
    and "tasks (fst (begin_download d j')) tid = Some t \<Longrightarrow> t_job t = j \<Longrightarrow> tasks d tid = Some t"
proof -
  let ?d' = "fst (begin_download d j')"
  have "jobs ?d' j = jobs d j \<and> job_events ?d' j = job_events d j
        \<and> job_got_calls ?d' j = job_got_calls d j
        \<and> (tasks ?d' tid = Some t \<longrightarrow> t_job t = j \<longrightarrow> tasks d tid = Some t)"
  proof (cases rule: begin_download_cases [of d j'])
    case skip
    then show ?thesis by simp
  next
    case (suspend job p)
    show ?thesis
      unfolding suspend(3) using assms by (auto simp: job_got_calls_def split: if_splits)
  next
    case (fail job err)
    show ?thesis
      unfolding fail(3) using assms by (auto simp: conclude_other split: if_splits)
  qed
  then show "jobs ?d' j = jobs d j" "job_events ?d' j = job_events d j"
    "job_got_calls ?d' j = job_got_calls d j"
    "tasks ?d' tid = Some t \<Longrightarrow> t_job t = j \<Longrightarrow> tasks d tid = Some t"
    by simp_all
qed

lemma processQueue_frame:
  assumes "j \<notin> set (queue d)"
  shows "jobs (processQueue d) j = jobs d j"
    and "job_events (processQueue d) j = job_events d j"
    and "job_got_calls (processQueue d) j = job_got_calls d j"
    and "j \<notin> set (queue (processQueue d))"
    and "running (processQueue d) j \<Longrightarrow> running d j"
proof -
  let ?P = "\<lambda>d'. j \<notin> set (queue d') \<and> jobs d' j = jobs d j \<and> job_events d' j = job_events d j
               \<and> job_got_calls d' j = job_got_calls d j \<and> (running d' j \<longrightarrow> running d j)"
  have "?P (processQueue d)"
  proof (rule processQueue_preserves [where P = ?P])
    show "?P d" using assms by simp
  next
    fix d' assume p: "?P d'" and ne: "queue d' \<noteq> []"
    let ?d0 = "d'\<lparr>queue := tl (queue d')\<rparr>"
    let ?n = "fst (begin_download ?d0 (hd (queue d')))"
    have h: "j \<noteq> hd (queue d')" using p ne by auto
    have q: "j \<notin> set (tl (queue d'))" using p ne by (auto dest: list.set_sel(2))
    have r: "running ?n j \<Longrightarrow> running d' j"
      unfolding running_def using begin_download_frame(4) [OF h, of ?d0] by fastforce
    show "?P ?n"
      using p q r by (simp add: begin_download_frame(1-3) [OF h])
  qed
  then show "jobs (processQueue d) j = jobs d j" "job_events (processQueue d) j = job_events d j"
    "job_got_calls (processQueue d) j = job_got_calls d j" "j \<notin> set (queue (processQueue d))"
    "running (processQueue d) j \<Longrightarrow> running d j"
    by simp_all
qed




subsection \<open>Steps and runs\<close>

lemma reachable_step: "reachable U D d \<Longrightarrow> next_state U D d d' \<Longrightarrow> reachable U D d'"
  by (auto elim!: next_state.cases intro: reachable.intros)

lemma reachable_runs_to: "runs_to U D d d' \<Longrightarrow> reachable U D d \<Longrightarrow> reachable U D d'"
  by (induction rule: runs_to.induct) (auto intro: reachable_step)

lemma runs_to_step: "next_state U D d d' \<Longrightarrow> runs_to U D d d'"
  by (rule runs_to.later [OF runs_to.here])

text \<open>What a step of one task does to another job.\<close>

lemma resume_other:
  assumes "tasks d tid = Some t" and "t_job t \<noteq> j" and "j \<notin> set (queue d)"
  shows "jobs (resume U D d tid out) j = jobs d j"
    and "job_events (resume U D d tid out) j = job_events d j"
    and "job_got_calls (resume U D d tid out) j = job_got_calls d j"
    and "j \<notin> set (queue (resume U D d tid out))"
    and "running (resume U D d tid out) j \<Longrightarrow> running d j"
proof -
  let ?r = "resume U D d tid out"
  have "jobs ?r j = jobs d j \<and> job_events ?r j = job_events d j
        \<and> job_got_calls ?r j = job_got_calls d j \<and> j \<notin> set (queue ?r)
        \<and> (running ?r j \<longrightarrow> running d j)"
  proof (cases "jobs d (t_job t)")
    case None
    then show ?thesis using assms by (simp add: resume_def)
  next
    case (Some job)
    let ?s = "download_step U D d (t_aborted t) job (t_pc t) out"
    let ?d1 = "d\<lparr>jobs := (jobs d)(t_job t \<mapsto> st_job ?s),
                 gotCalls := gotCalls d @ map (Pair (t_job t)) (st_calls ?s),
                 emitted := emitted d @ map (OnProgress (t_job t)) (st_progress ?s)\<rparr>"
    have 1: "jobs ?d1 j = jobs d j" "job_events ?d1 j = job_events d j"
            "job_got_calls ?d1 j = job_got_calls d j" "queue ?d1 = queue d" "tasks ?d1 = tasks d"
      using assms(2) by (auto simp: job_events_def job_got_calls_def filter_job_progress)
    have c: "jobs (conclude ?d1 (t_job t) tid e) j = jobs d j"
            "job_events (conclude ?d1 (t_job t) tid e) j = job_events d j"
            "job_got_calls (conclude ?d1 (t_job t) tid e) j = job_got_calls d j"
            "j \<notin> set (queue (conclude ?d1 (t_job t) tid e))"
            "running (conclude ?d1 (t_job t) tid e) j \<Longrightarrow> running d j" for e
    proof -
      have n: "j \<noteq> t_job t" using assms(2) by simp
      show "jobs (conclude ?d1 (t_job t) tid e) j = jobs d j"
        using conclude_other(1) [OF n, of ?d1 tid e] 1(1) by simp
      show "job_events (conclude ?d1 (t_job t) tid e) j = job_events d j"
        using conclude_other(2) [OF n, of ?d1 tid e] 1(2) by simp
      show "job_got_calls (conclude ?d1 (t_job t) tid e) j = job_got_calls d j"
        using 1(3) by (simp only: job_got_calls_conclude)
      show "j \<notin> set (queue (conclude ?d1 (t_job t) tid e))"
        using assms(3) by simp
      show "running (conclude ?d1 (t_job t) tid e) j \<Longrightarrow> running d j"
        by (auto simp: running_def split: if_splits)
    qed
    have f: "jobs (finish ?d1 (t_job t) tid e) j = jobs d j
             \<and> job_events (finish ?d1 (t_job t) tid e) j = job_events d j
             \<and> job_got_calls (finish ?d1 (t_job t) tid e) j = job_got_calls d j
             \<and> j \<notin> set (queue (finish ?d1 (t_job t) tid e))
             \<and> (running (finish ?d1 (t_job t) tid e) j \<longrightarrow> running d j)" for e
      unfolding finish_def
      using processQueue_frame [OF c(4) [of e]] c [of e] by auto
    show ?thesis
    proof (cases "st_next ?s")
      case (Await p)
      have "running (?d1\<lparr>tasks := (tasks ?d1)(tid \<mapsto> t\<lparr>t_pc := p\<rparr>)\<rparr>) j \<Longrightarrow> running d j"
        using assms(1,2) by (auto simp: running_def split: if_splits)
      then show ?thesis
        using assms Some Await 1 by (auto simp: resume_def Let_def)
    next
      case Return
      then show ?thesis
        using assms(1) Some f [of Returned] by (simp add: resume_def Let_def)
    next
      case (Throw e)
      then show ?thesis
        using assms(1) Some f [of "Thrown e"] by (simp add: resume_def Let_def)
    qed
  qed
  then show "jobs ?r j = jobs d j" "job_events ?r j = job_events d j"
    "job_got_calls ?r j = job_got_calls d j" "j \<notin> set (queue ?r)"
    "running ?r j \<Longrightarrow> running d j"
    by simp_all
qed




subsection \<open>Claim C2\<close>




subsection \<open>The log of callbacks only grows\<close>

lemma emitted_conclude: "prefix (emitted d) (emitted (conclude d j tid e))"
  by (simp add: conclude_def Let_def split: option.splits ending.splits)

lemma emitted_begin_download: "prefix (emitted d) (emitted (fst (begin_download d j)))"
proof (cases rule: begin_download_cases [of d j])
  case skip
  then show ?thesis by simp
next
  case (suspend job p)
  show ?thesis unfolding suspend(3) by simp
next
  case (fail job err)
  let ?c = "d\<lparr>activeDownloads := activeDownloads d + 1,
              jobs := (jobs d)(j \<mapsto> job\<lparr>status := Downloading\<rparr>),
              abortControllers := (abortControllers d)(j \<mapsto> nextTask d),
              nextTask := nextTask d + 1\<rparr>"
  have "prefix (emitted ?c) (emitted (conclude ?c j (nextTask d) (Thrown err)))"
    by (rule emitted_conclude)
  then show ?thesis
    unfolding fail(3) by simp
qed

lemma emitted_processQueue: "prefix (emitted d) (emitted (processQueue d))"
proof (rule processQueue_preserves [where P = "\<lambda>d'. prefix (emitted d) (emitted d')"])
  show "prefix (emitted d) (emitted d)" by simp
next
  fix d' :: downloader assume p: "prefix (emitted d) (emitted d')"
  have "prefix (emitted d')
          (emitted (fst (begin_download (d'\<lparr>queue := tl (queue d')\<rparr>) (hd (queue d')))))"
    using emitted_begin_download [of "d'\<lparr>queue := tl (queue d')\<rparr>" "hd (queue d')"] by simp
  then show "prefix (emitted d)
          (emitted (fst (begin_download (d'\<lparr>queue := tl (queue d')\<rparr>) (hd (queue d')))))"
    using p by (rule_tac prefix_order.trans)
qed

lemma emitted_finish: "prefix (emitted d) (emitted (finish d j tid e))"
  unfolding finish_def
  using emitted_conclude [of d j tid e] emitted_processQueue [of "conclude d j tid e"]
  by (rule prefix_order.trans)

lemma emitted_resume: "prefix (emitted d) (emitted (resume U D d tid out))"
proof -
  have f: "prefix (emitted d) (emitted (finish (d\<lparr>jobs := js, gotCalls := rs, emitted := emitted d @ es\<rparr>) j tid e))"
    for js rs es j e
    using emitted_finish [of "d\<lparr>jobs := js, gotCalls := rs, emitted := emitted d @ es\<rparr>" j tid e]
    by (auto elim: append_prefixD)
  show ?thesis
    by (auto simp: resume_def Let_def f split: option.splits continuation.splits)
qed

lemma emitted_next_state: "next_state U D d d' \<Longrightarrow> prefix (emitted d) (emitted d')"
proof (induction rule: next_state.induct)
  case (start d newId strm quality)
  show ?case
    unfolding startDownload_def Let_def
    using emitted_processQueue [of "d\<lparr>jobs := (jobs d)(newId \<mapsto> _), queue := queue d @ [newId]\<rparr>"]
    by simp
next
  case (cancel d jobId)
  show ?case by simp
next
  case (resume d tid out)
  show ?case by (rule emitted_resume)
next
  case (set_path d path)
  show ?case by (simp add: setDownloadPath_def)
qed

lemma emitted_runs_to: "runs_to U D d d' \<Longrightarrow> prefix (emitted d) (emitted d')"
proof (induction rule: runs_to.induct)
  case (here d)
  show ?case by simp
next
  case (later d m n)
  show ?case
    using later.IH emitted_next_state [OF later.hyps(2)] by (rule prefix_order.trans)
qed

lemma job_events_prefix:
  "prefix (emitted d) (emitted d') \<Longrightarrow> prefix (job_events d j) (job_events d' j)"
  by (auto simp: job_events_def prefix_def)

subsection \<open>A task that ends does not write the status\<close>

lemma loop_end_status:
  "\<forall>p'. st_next (hls_loop d ab job segs dir i files bytes) \<noteq> Await p' \<Longrightarrow>
     status (st_job (hls_loop d ab job segs dir i files bytes)) = status job"
  "\<forall>p'. st_next (dash_loop d ab job segs dir i files bytes) \<noteq> Await p' \<Longrightarrow>
     status (st_job (dash_loop d ab job segs dir i files bytes)) = status job"
  by (auto simp: hls_loop_def dash_loop_def step_to_def Let_def split: if_splits)

lemma download_step_end_status:
  assumes "\<forall>p'. st_next (download_step U D d ab job p out) \<noteq> Await p'"
  shows "status (st_job (download_step U D d ab job p out)) = status job"
proof (cases out)
  case (Resolved v)
  show ?thesis
  proof (cases p)
    case (HlsWrite segs dir i files bytes n)
    then show ?thesis
      using Resolved assms loop_end_status(1) [of d ab _ segs dir "i + 1"]
      by (simp add: download_step_def Let_def)
  next
    case (DashWrite segs dir i files bytes n)
    then show ?thesis
      using Resolved assms loop_end_status(2) [of d ab _ segs dir "i + 1"]
      by (simp add: download_step_def Let_def)
  next
    case (HlsMkdir segs dir)
    then show ?thesis
      using Resolved assms loop_end_status(1) [of d ab job segs dir 0 "[]" 0]
      by (simp add: download_step_def)
  next
    case (DashMkdir r segs dir)
    then show ?thesis
      using Resolved assms loop_end_status(2) [of d ab job segs dir 0 "[]" 0]
      by (auto simp: download_step_def step_to_def split: option.splits)
  next
    case (DashInitWrite segs dir)
    then show ?thesis
      using Resolved assms loop_end_status(2) [of d ab job segs dir 0 _ 0]
      by (simp add: download_step_def)
  qed (use Resolved assms in \<open>auto simp: download_step_def step_to_def Let_def
        split: payload.splits sum.splits HLSPlaylist.splits option.splits list.splits if_splits\<close>)
qed (use assms in \<open>auto simp: download_step_def step_to_def Let_def split: pc.splits\<close>)

subsection \<open>While a job is cancelled, neither \<open>onComplete\<close> nor \<open>onError\<close> is called for it\<close>

lemma filter_terminal_progress [simp]:
  "filter terminal (map (OnProgress j) prs) = []"
  by (induction prs) auto

lemma resume_cancelled:
  assumes "inv d" and "job_status d j = Some Cancelled"
  shows "filter terminal (job_events (resume U D d tid out) j) = filter terminal (job_events d j)"
proof (cases "tasks d tid")
  case None
  then show ?thesis by (simp add: resume_def)
next
  case (Some t)
  have q: "j \<notin> set (queue d)"
    using assms by (auto simp: inv_def inv_events_def job_inv_def)
  show ?thesis
  proof (cases "t_job t = j")
    case False
    then show ?thesis
      using resume_other(2) [OF Some _ q, of U D out] by simp
  next
    case True
    obtain job where job: "jobs d j = Some job" "status job = Cancelled"
      using assms(2) by (auto simp: job_status_def)
    let ?s = "download_step U D d (t_aborted t) job (t_pc t) out"
    let ?d1 = "d\<lparr>jobs := (jobs d)(j \<mapsto> st_job ?s),
                 gotCalls := gotCalls d @ map (Pair j) (st_calls ?s),
                 emitted := emitted d @ map (OnProgress j) (st_progress ?s)\<rparr>"
    have e1: "job_events ?d1 j = job_events d j @ map (OnProgress j) (st_progress ?s)"
      by (simp add: job_events_def filter_job_progress)
    have j1: "jobs ?d1 j = Some (st_job ?s)" by simp
    have q1: "j \<notin> set (queue (conclude ?d1 j tid e))" for e
      using q by simp
    have f: "job_events (finish ?d1 j tid e) j = job_events ?d1 j"
      if "status (st_job ?s) = Cancelled" for e
    proof -
      have "job_events (conclude ?d1 j tid e) j = job_events ?d1 j"
        using conclude_Returned(2) [OF j1 that, of tid] conclude_Thrown(2) [OF j1, of _ tid] that
        by (cases e) auto
      then show ?thesis
        unfolding finish_def using processQueue_frame(2) [OF q1 [of e]] by simp
    qed
    show ?thesis
    proof (cases "st_next ?s")
      case (Await p)
      then show ?thesis
        using Some True job e1 by (simp add: resume_def Let_def)
    next
      case Return
      then have "status (st_job ?s) = Cancelled"
        using download_step_end_status [of U D d "t_aborted t" job "t_pc t" out] job(2) by simp
      then show ?thesis
        using Some True job Return f [of Returned] e1 by (simp add: resume_def Let_def)
    next
      case (Throw e)
      then have "status (st_job ?s) = Cancelled"
        using download_step_end_status [of U D d "t_aborted t" job "t_pc t" out] job(2) by simp
      then show ?thesis
        using Some True job Throw f [of "Thrown e"] e1 by (simp add: resume_def Let_def)
    qed
  qed
qed

lemma next_state_cancelled:
  assumes "next_state U D d d'" and "inv d" and "job_status d j = Some Cancelled"
  shows "filter terminal (job_events d' j) = filter terminal (job_events d j)"
  using assms(1)
proof (cases rule: next_state.cases)
  case (start newId strm quality)
  let ?job = "\<lparr>job_id = newId, stream = strm, selectedQuality = quality, status = Pending,
               progress = \<lparr>downloadedBytes = 0, currentSegment = None, totalSegments = None\<rparr>,
               outputPath = None, job_error = None\<rparr>"
  let ?d1 = "d\<lparr>jobs := (jobs d)(newId \<mapsto> ?job), queue := queue d @ [newId]\<rparr>"
  have "j \<noteq> newId"
    using start(2) assms(3) by (auto simp: job_status_def)
  moreover have "j \<notin> set (queue d)"
    using assms(2,3) by (auto simp: inv_def inv_events_def job_inv_def)
  ultimately have q: "j \<notin> set (queue ?d1)" by simp
  have "d' = processQueue ?d1"
    using start(1) by (simp add: startDownload_def)
  then show ?thesis
    using processQueue_frame(2) [OF q] by simp
next
  case (cancel jobId)
  then show ?thesis by (simp add: cancelDownload_fields(6))
next
  case (resume tid out)
  then show ?thesis using resume_cancelled [OF assms(2,3)] by simp
next
  case (set_path path)
  then show ?thesis by (simp add: setDownloadPath_def)
qed

subsection \<open>The terminal events of a list\<close>

lemma filter_terminal_none: "progress_only es \<Longrightarrow> filter terminal es = []"
  by (simp add: progress_only_def)

lemma filter_terminal_butlast:
  assumes "progress_only (butlast es)" and "es \<noteq> []"
  shows "filter terminal es = (if terminal (last es) then [last es] else [])"
proof -
  have "es = butlast es @ [last es]"
    using assms(2) by simp
  then have "filter terminal es = filter terminal (butlast es) @ filter terminal [last es]"
    by (metis filter_append)
  then show ?thesis
    using assms(1) by (simp add: filter_terminal_none)
qed

lemma filter_terminal_length:
  "progress_only (butlast es) \<Longrightarrow> length (filter terminal es) \<le> 1"
  by (cases "es = []") (simp_all add: filter_terminal_butlast)

subsection \<open>The runs to completion\<close>

lemma output_path_movie:
  "downloadPath d = ''/downloads'' \<Longrightarrow> pageTitle (stream job) = ''Movie'' \<Longrightarrow>
   output_path d job = ''/downloads/Movie.mp4''"
  by (simp add: output_path_def path_join_def sanitizeFilename_def or_default_def trim_def
      js_space_def)

lemma run_segment_written_eq:
  "run_segment_written =
     run_state job1_downloading
       [0 \<mapsto> \<lparr>t_job = ''job-1'', t_aborted = False,
               t_pc = HlsWrite [''https://cdn.example/seg0.ts''] ''/downloads/.aigrabber-job-1'' 0 [] 0 1024\<rparr>]
       [''job-1'' \<mapsto> 0] 1 []
       [(''job-1'', ''https://cdn.example/v.m3u8''), (''job-1'', ''https://cdn.example/v.m3u8''),
        (''job-1'', ''https://cdn.example/seg0.ts'')]"
  by (simp add: run_segment_written_def run_segment_requested_eq resume_def run_state_def
      download_step_def step_to_def job1_downloading_def Let_def)

lemma run_merging_eq:
  "run_merging =
     run_state (job1_downloading\<lparr>status := Merging,
                  progress := \<lparr>downloadedBytes = 1024, currentSegment = Some 1, totalSegments = Some 1\<rparr>\<rparr>)
       [0 \<mapsto> \<lparr>t_job = ''job-1'', t_aborted = False, t_pc = HlsMerge ''/downloads/Movie.mp4''\<rparr>]
       [''job-1'' \<mapsto> 0] 1
       [OnProgress ''job-1'' \<lparr>downloadedBytes = 1024, currentSegment = Some 1, totalSegments = Some 1\<rparr>]
       [(''job-1'', ''https://cdn.example/v.m3u8''), (''job-1'', ''https://cdn.example/v.m3u8''),
        (''job-1'', ''https://cdn.example/seg0.ts'')]"
  by (simp add: run_merging_def run_segment_written_eq resume_def run_state_def
      download_step_def hls_loop_def step_to_def job1_downloading_def drm_stream_def
      output_path_movie Let_def)

lemma run_cleanup_eq:
  "run_cleanup =
     run_state (job1_downloading\<lparr>status := Merging,
                  progress := \<lparr>downloadedBytes = 1024, currentSegment = Some 1, totalSegments = Some 1\<rparr>\<rparr>)
       [0 \<mapsto> \<lparr>t_job = ''job-1'', t_aborted = False, t_pc = HlsCleanup ''/downloads/Movie.mp4''\<rparr>]
       [''job-1'' \<mapsto> 0] 1
       [OnProgress ''job-1'' \<lparr>downloadedBytes = 1024, currentSegment = Some 1, totalSegments = Some 1\<rparr>]
       [(''job-1'', ''https://cdn.example/v.m3u8''), (''job-1'', ''https://cdn.example/v.m3u8''),
        (''job-1'', ''https://cdn.example/seg0.ts'')]"
  by (simp add: run_cleanup_def run_merging_eq resume_def run_state_def
      download_step_def step_to_def job1_downloading_def Let_def)

lemma run_completed_eq:
  "run_completed =
     run_state (job1_downloading\<lparr>status := Completed,
                  progress := \<lparr>downloadedBytes = 1024, currentSegment = Some 1, totalSegments = Some 1\<rparr>,
                  outputPath := Some ''/downloads/Movie.mp4''\<rparr>)
       Map.empty Map.empty 0
       [OnProgress ''job-1'' \<lparr>downloadedBytes = 1024, currentSegment = Some 1, totalSegments = Some 1\<rparr>,
        OnComplete ''job-1'' (Some ''/downloads/Movie.mp4'')]
       [(''job-1'', ''https://cdn.example/v.m3u8''), (''job-1'', ''https://cdn.example/v.m3u8''),
        (''job-1'', ''https://cdn.example/seg0.ts'')]"
  by (simp add: run_completed_def run_cleanup_eq resume_def run_state_def
      download_step_def step_to_def finish_def conclude_def processQueue_stop
      job1_downloading_def Let_def)

lemma run_cancelled_late_eq:
  "run_cancelled_late =
     run_state (job1_downloading\<lparr>status := Cancelled\<rparr>)
       [0 \<mapsto> \<lparr>t_job = ''job-1'', t_aborted = True,
               t_pc = HlsWrite [''https://cdn.example/seg0.ts''] ''/downloads/.aigrabber-job-1'' 0 [] 0 1024\<rparr>]
       Map.empty 1 []
       [(''job-1'', ''https://cdn.example/v.m3u8''), (''job-1'', ''https://cdn.example/v.m3u8''),
        (''job-1'', ''https://cdn.example/seg0.ts'')]"
  by (simp add: run_cancelled_late_def run_segment_written_eq cancelDownload_def run_state_def
      job1_downloading_def Let_def)

text \<open>
  When \<open>cancelDownload\<close> is called while the last segment is being written, the loop of
  \<open>downloadHLS\<close> is left without another look at \<open>signal.aborted\<close>, and the assignment
  \<open>job.status = 'merging'\<close> overwrites \<open>cancelled\<close>: the job goes on to complete.
\<close>

lemma cancel_during_last_write_completes:
  "run_cancel_lost =
     run_state (job1_downloading\<lparr>status := Completed,
                  progress := \<lparr>downloadedBytes = 1024, currentSegment = Some 1, totalSegments = Some 1\<rparr>,
                  outputPath := Some ''/downloads/Movie.mp4''\<rparr>)
       Map.empty Map.empty 0
       [OnProgress ''job-1'' \<lparr>downloadedBytes = 1024, currentSegment = Some 1, totalSegments = Some 1\<rparr>,
        OnComplete ''job-1'' (Some ''/downloads/Movie.mp4'')]
       [(''job-1'', ''https://cdn.example/v.m3u8''), (''job-1'', ''https://cdn.example/v.m3u8''),
        (''job-1'', ''https://cdn.example/seg0.ts'')]"
proof -
  let ?pr = "\<lparr>downloadedBytes = 1024, currentSegment = Some 1, totalSegments = Some 1\<rparr>"
  let ?rs = "[(''job-1'', ''https://cdn.example/v.m3u8''), (''job-1'', ''https://cdn.example/v.m3u8''),
              (''job-1'', ''https://cdn.example/seg0.ts'')]"
  have 1: "resume no_url_api no_dom_api run_cancelled_late 0 (Resolved Nothing) =
      run_state (job1_downloading\<lparr>status := Merging, progress := ?pr\<rparr>)
        [0 \<mapsto> \<lparr>t_job = ''job-1'', t_aborted = True, t_pc = HlsMerge ''/downloads/Movie.mp4''\<rparr>]
        Map.empty 1 [OnProgress ''job-1'' ?pr] ?rs"
    by (simp add: run_cancelled_late_eq resume_def run_state_def
        download_step_def hls_loop_def step_to_def job1_downloading_def drm_stream_def
        output_path_movie Let_def)
  have 2: "resume no_url_api no_dom_api
             (resume no_url_api no_dom_api run_cancelled_late 0 (Resolved Nothing)) 0 (Resolved Nothing) =
      run_state (job1_downloading\<lparr>status := Merging, progress := ?pr\<rparr>)
        [0 \<mapsto> \<lparr>t_job = ''job-1'', t_aborted = True, t_pc = HlsCleanup ''/downloads/Movie.mp4''\<rparr>]
        Map.empty 1 [OnProgress ''job-1'' ?pr] ?rs"
    unfolding 1
    by (simp add: resume_def run_state_def download_step_def step_to_def job1_downloading_def Let_def)
  show ?thesis
    unfolding run_cancel_lost_def 2
    by (simp add: resume_def run_state_def download_step_def step_to_def finish_def conclude_def
        processQueue_stop job1_downloading_def Let_def)
qed

lemma reachable_run_completed: "reachable no_url_api no_dom_api run_completed"
  unfolding run_completed_def run_cleanup_def run_merging_def run_segment_written_def
  by (intro reachable.resumed reachable_run_segment_requested)

lemma reachable_run_segment_failed: "reachable no_url_api no_dom_api run_segment_failed"
  unfolding run_segment_failed_def
  by (intro reachable.resumed reachable_run_segment_requested)

lemma reachable_run_cancelled: "reachable no_url_api no_dom_api run_cancelled"
  unfolding run_cancelled_def
  by (intro reachable.cancelled reachable_run_segment_requested)

subsection \<open>Claim C3\<close>

text \<open>
  \<^bold>\<open>Claim C3\<close>, as stated: the events of a job are emitted in order, no event follows a
  terminal one, and the last event is \<open>complete\<close> for a successful job, \<open>error\<close> for a
  failed one, and a \<open>progress\<close> event with status \<open>cancelled\<close> for a cancelled one.
  The last part fails: \<open>cancelDownload\<close> calls no callback, and \<open>onProgress\<close> is called with
  a job id and a progress record, without a status.  In the run below the job is
  cancelled while the \<open>got\<close> call for its segment is pending; no callback is called by
  \<open>cancelDownload\<close>, and when the task has ended the job is \<open>cancelled\<close> and not one event
  has been emitted for it.
\<close>

theorem cancelled_job_without_event_counterexample:
  "job_status run_cancelled ''job-1'' = Some Cancelled
   \<and> emitted run_cancelled = []
   \<and> job_status run_cancel_observed ''job-1'' = Some Cancelled
   \<and> tasks run_cancel_observed = Map.empty
   \<and> job_events run_cancel_observed ''job-1'' = []"
  by (simp add: run_cancelled_eq run_cancel_observed_eq run_state_def job_events_def
      job_status_def)

text \<open>
  \<^bold>\<open>Claim C3\<close>, amended.  In every state the downloader can reach with callbacks that
  return normally, and for every job id: at most one call of \<open>onComplete\<close> or \<open>onError\<close>
  has been made for the job; if the job is \<open>completed\<close>, that call is \<open>onComplete\<close> with the
  job's output path; if the job is \<open>failed\<close>, it is \<open>onError\<close> with \<open>job.error\<close>; if the
  job is \<open>pending\<close>, \<open>downloading\<close> or \<open>merging\<close>, there is none.  For a job of an HLS or
  DASH stream that call is the last event of the job: among its events only the last can
  be \<open>onComplete\<close> or \<open>onError\<close>, and once one of them has been called the events of the
  job are the same in every later state.  For every job id, the events of a later state
  are the earlier events followed by the new ones; \<open>cancelDownload\<close> calls no callback;
  and in a step from a state in which the job is \<open>cancelled\<close> neither \<open>onComplete\<close> nor
  \<open>onError\<close> is called for it.
\<close>

theorem callbacks_in_order_terminal_last:
  assumes "reachable U D d"
  shows "length (filter terminal (job_events d j)) \<le> 1
       \<and> (\<forall>job. jobs d j = Some job \<longrightarrow>
            (status job = Completed \<longrightarrow>
               filter terminal (job_events d j) = [OnComplete j (outputPath job)])
          \<and> (status job = Failed \<longrightarrow>
               (\<exists>msg. job_error job = Some msg
                      \<and> filter terminal (job_events d j) = [OnError j msg]))
          \<and> (status job \<in> {Pending, Downloading, Merging} \<longrightarrow>
               filter terminal (job_events d j) = [])
          \<and> (s_type (stream job) \<in> {Hls, Dash} \<longrightarrow>
               progress_only (butlast (job_events d j))
               \<and> (status job = Completed \<longrightarrow>
                    job_events d j \<noteq> [] \<and> last (job_events d j) = OnComplete j (outputPath job))
               \<and> (status job = Failed \<longrightarrow>
                    job_events d j \<noteq> []
                    \<and> (\<exists>msg. job_error job = Some msg \<and> last (job_events d j) = OnError j msg))
               \<and> (\<forall>d'. runs_to U D d d' \<longrightarrow> \<not> progress_only (job_events d j) \<longrightarrow>
                     job_events d' j = job_events d j)))
       \<and> (\<forall>d'. runs_to U D d d' \<longrightarrow> prefix (job_events d j) (job_events d' j))
       \<and> emitted (cancelDownload d j') = emitted d
       \<and> (\<forall>d'. next_state U D d d' \<longrightarrow> job_status d j = Some Cancelled \<longrightarrow>
             filter terminal (job_events d' j) = filter terminal (job_events d j))"
proof (intro conjI allI impI)
  have i: "inv d" by (rule reachable_inv [OF assms])
  then have ji: "job_inv d j"
    by (simp add: inv_def inv_events_def)
  have b: "progress_only (butlast (job_events d j))"
    using ji by (simp add: job_inv_def)
  show "length (filter terminal (job_events d j)) \<le> 1"
    by (rule filter_terminal_length [OF b])
  show "emitted (cancelDownload d j') = emitted d"
    by simp
  {
    fix job assume a: "jobs d j = Some job"
    show "progress_only (butlast (job_events d j))"
      by (rule b)
    {
      assume "status job = Completed"
      then have c: "job_events d j \<noteq> [] \<and> last (job_events d j) = OnComplete j (outputPath job)"
        using ji a unfolding job_inv_def by blast
      then show "job_events d j \<noteq> []" "last (job_events d j) = OnComplete j (outputPath job)"
        by simp_all
      show "filter terminal (job_events d j) = [OnComplete j (outputPath job)]"
        using filter_terminal_butlast [OF b] c by simp
    }
    {
      assume "status job = Failed"
      then have c: "job_events d j \<noteq> []
               \<and> (\<exists>msg. job_error job = Some msg \<and> last (job_events d j) = OnError j msg)"
        using ji a unfolding job_inv_def by blast
      then show "job_events d j \<noteq> []"
        "\<exists>msg. job_error job = Some msg \<and> last (job_events d j) = OnError j msg"
        by simp_all
      from c obtain msg where m: "job_error job = Some msg" "last (job_events d j) = OnError j msg"
        by blast
      have "filter terminal (job_events d j) = [OnError j msg]"
        using filter_terminal_butlast [OF b] c m(2) by simp
      then show "\<exists>msg. job_error job = Some msg
                      \<and> filter terminal (job_events d j) = [OnError j msg]"
        using m(1) by blast
    }
    {
      assume "status job \<in> {Pending, Downloading, Merging}"
      then have "job_status d j \<in> {Some Pending, Some Downloading, Some Merging}"
        using a by (auto simp: job_status_def)
      then have "progress_only (job_events d j)"
        using ji unfolding job_inv_def by blast
      then show "filter terminal (job_events d j) = []"
        by (rule filter_terminal_none)
    }
  }
  {
    fix d' assume r: "runs_to U D d d'"
    show p: "prefix (job_events d j) (job_events d' j)"
      by (rule job_events_prefix [OF emitted_runs_to [OF r]])
    have "inv d'"
      by (rule reachable_inv [OF reachable_runs_to [OF r assms]])
    then have b': "progress_only (butlast (job_events d' j))"
      by (simp add: inv_def inv_events_def job_inv_def)
    assume n: "\<not> progress_only (job_events d j)"
    obtain zs where zs: "job_events d' j = job_events d j @ zs"
      using p by (auto simp: prefix_def)
    have "zs = []"
    proof (rule ccontr)
      assume "zs \<noteq> []"
      then have "butlast (job_events d' j) = job_events d j @ butlast zs"
        by (simp add: zs butlast_append)
      then show False using b' n by simp
    qed
    then show "job_events d' j = job_events d j" using zs by simp
  }
  {
    fix d' assume "next_state U D d d'" "job_status d j = Some Cancelled"
    then show "filter terminal (job_events d' j) = filter terminal (job_events d j)"
      using i by (rule_tac next_state_cancelled)
  }
qed

theorem callbacks_in_order_terminal_last_witness:
  "reachable no_url_api no_dom_api run_completed
   \<and> map_option (s_type \<circ> stream) (jobs run_completed ''job-1'') = Some Hls
   \<and> job_status run_completed ''job-1'' = Some Completed
   \<and> filter terminal (job_events run_completed ''job-1'')
       = [OnComplete ''job-1'' (Some ''/downloads/Movie.mp4'')]
   \<and> last (job_events run_completed ''job-1'') = OnComplete ''job-1'' (Some ''/downloads/Movie.mp4'')
   \<and> progress_only (butlast (job_events run_completed ''job-1''))
   \<and> \<not> progress_only (job_events run_completed ''job-1'')
   \<and> job_events (cancelDownload run_completed ''job-1'') ''job-1'' = job_events run_completed ''job-1''
   \<and> reachable no_url_api no_dom_api run_segment_failed
   \<and> job_status run_segment_failed ''job-1'' = Some Failed
   \<and> last (job_events run_segment_failed ''job-1'') = OnError ''job-1'' ''connect ECONNREFUSED''
   \<and> reachable no_url_api no_dom_api run_segment_requested
   \<and> job_status run_segment_requested ''job-1'' = Some Downloading
   \<and> filter terminal (job_events run_segment_requested ''job-1'') = []
   \<and> reachable no_url_api no_dom_api run_cancelled
   \<and> job_status run_cancelled ''job-1'' = Some Cancelled
   \<and> filter terminal (job_events run_cancel_observed ''job-1'') = []"
proof -
  let ?done = "job1_downloading\<lparr>status := Completed,
                  progress := \<lparr>downloadedBytes = 1024, currentSegment = Some 1, totalSegments = Some 1\<rparr>,
                  outputPath := Some ''/downloads/Movie.mp4''\<rparr>"
  let ?failed = "job1_downloading\<lparr>status := Failed, job_error := Some ''connect ECONNREFUSED''\<rparr>"
  note C = callbacks_in_order_terminal_last [OF reachable_run_completed, of "''job-1''" "''job-1''"]
  note F = callbacks_in_order_terminal_last [OF reachable_run_segment_failed, of "''job-1''" "''job-1''"]
  note R = callbacks_in_order_terminal_last [OF reachable_run_segment_requested, of "''job-1''" "''job-1''"]
  note X = callbacks_in_order_terminal_last [OF reachable_run_cancelled, of "''job-1''" "''job-1''"]
  have c: "jobs run_completed ''job-1'' = Some ?done" "status ?done = Completed"
          "outputPath ?done = Some ''/downloads/Movie.mp4''" "s_type (stream ?done) \<in> {Hls, Dash}"
    by (simp_all add: run_completed_eq run_state_def job1_downloading_def drm_stream_def)
  have f: "jobs run_segment_failed ''job-1'' = Some ?failed" "status ?failed = Failed"
          "job_error ?failed = Some ''connect ECONNREFUSED''" "s_type (stream ?failed) \<in> {Hls, Dash}"
    by (simp_all add: run_segment_failed_eq run_state_def job1_downloading_def drm_stream_def)
  have g: "jobs run_segment_requested ''job-1'' = Some job1_downloading"
          "status job1_downloading \<in> {Pending, Downloading, Merging}"
    by (simp_all add: run_segment_requested_eq run_state_def job1_downloading_def)
  have x: "job_status run_cancelled ''job-1'' = Some Cancelled"
          "job_events run_cancelled ''job-1'' = []"
    by (simp_all add: run_cancelled_eq run_state_def job_status_def job_events_def)
  have n: "\<not> progress_only (job_events run_completed ''job-1'')"
    by (simp add: run_completed_eq run_state_def job_events_def)
  note Cj = C [THEN conjunct2, THEN conjunct1, rule_format, OF c(1)]
  note Fj = F [THEN conjunct2, THEN conjunct1, rule_format, OF f(1)]
  note Rj = R [THEN conjunct2, THEN conjunct1, rule_format, OF g(1)]
  note Ch = Cj [THEN conjunct2, THEN conjunct2, THEN conjunct2, rule_format, OF c(4)]
  note Fh = Fj [THEN conjunct2, THEN conjunct2, THEN conjunct2, rule_format, OF f(4)]
  have 0: "filter terminal (job_events run_completed ''job-1'')
       = [OnComplete ''job-1'' (Some ''/downloads/Movie.mp4'')]"
    using Cj [THEN conjunct1, rule_format, OF c(2)] by (simp only: c(3))
  have 1: "last (job_events run_completed ''job-1'') = OnComplete ''job-1'' (Some ''/downloads/Movie.mp4'')"
    using Ch [THEN conjunct2, THEN conjunct1, rule_format, OF c(2)]
    by (simp only: c(3))
  have 2: "progress_only (butlast (job_events run_completed ''job-1''))"
    by (rule Ch [THEN conjunct1])
  have 3: "job_events (cancelDownload run_completed ''job-1'') ''job-1'' = job_events run_completed ''job-1''"
    using Ch [THEN conjunct2, THEN conjunct2, THEN conjunct2, rule_format,
              OF runs_to_step [OF next_state.cancel] n] .
  obtain msg where m: "job_error ?failed = Some msg"
      "last (job_events run_segment_failed ''job-1'') = OnError ''job-1'' msg"
    using Fh [THEN conjunct2, THEN conjunct2, THEN conjunct1, rule_format, OF f(2)] by blast
  have 4: "last (job_events run_segment_failed ''job-1'') = OnError ''job-1'' ''connect ECONNREFUSED''"
    using m f(3) by simp
  have 6: "filter terminal (job_events run_segment_requested ''job-1'') = []"
    by (rule Rj [THEN conjunct2, THEN conjunct2, THEN conjunct1, rule_format, OF g(2)])
  have s: "next_state no_url_api no_dom_api run_cancelled run_cancel_observed"
    unfolding run_cancel_observed_def by (rule next_state.resume)
  have 5: "filter terminal (job_events run_cancel_observed ''job-1'') = []"
    using X [THEN conjunct2, THEN conjunct2, THEN conjunct2, THEN conjunct2, rule_format, OF s x(1)]
    by (simp add: x(2))
  have cs: "job_status run_completed ''job-1'' = Some Completed"
    using c by (simp add: job_status_def)
  have ct: "map_option (s_type \<circ> stream) (jobs run_completed ''job-1'') = Some Hls"
    by (simp add: run_completed_eq run_state_def job1_downloading_def drm_stream_def)
  have fs: "job_status run_segment_failed ''job-1'' = Some Failed"
    using f by (simp add: job_status_def)
  have gs: "job_status run_segment_requested ''job-1'' = Some Downloading"
    by (simp add: run_segment_requested_eq run_state_def job_status_def job1_downloading_def)
  show ?thesis
    by (intro conjI reachable_run_completed reachable_run_segment_failed reachable_run_cancelled
        reachable_run_segment_requested cs ct fs gs x(1) n 0 1 2 3 4 5 6)
qed

end
